theory Spec2Isabelle
  imports Main "HOL-Library.Sublist"
begin

section \<open>Strings: the operations of Python's str that main.py uses\<close>

text \<open>
  A Python string is modelled as \<^typ>\<open>string\<close>. \<open>sub in s\<close> is \<open>substr_in sub s\<close>,
  \<open>s.endswith(x)\<close> is \<^const>\<open>suffix\<close>, \<open>s.replace(old, '''')\<close> is \<open>remove_all old s\<close>
  (occurrences are found from the left and do not overlap), and \<open>s.split(c)[0]\<close> is the
  text before the first \<open>c\<close>.
\<close>

fun substr_in :: "string \<Rightarrow> string \<Rightarrow> bool" where
  "substr_in sub [] = (sub = [])"
| "substr_in sub (c # cs) = (prefix sub (c # cs) \<or> substr_in sub cs)"

fun remove_all :: "string \<Rightarrow> string \<Rightarrow> string" where
  "remove_all old [] = []"
| "remove_all old (c # cs) =
     (if old \<noteq> [] \<and> prefix old (c # cs)
      then remove_all old (drop (length old) (c # cs))
      else c # remove_all old cs)"

definition split_first :: "char \<Rightarrow> string \<Rightarrow> string" where
  "split_first sep s = takeWhile (\<lambda>c. c \<noteq> sep) s"

section \<open>Regular expressions: the fragment of Python's re that main.py uses\<close>

text \<open>
  Both patterns of main.py are sequences of single characters, character classes and
  greedy repetitions of a character class. \<open>One p\<close> matches one character satisfying
  \<open>p\<close>; \<open>Many n p\<close> is \<open>p{n,}\<close>: it first takes as many characters as satisfy \<open>p\<close> and
  gives them back one at a time, down to \<open>n\<close>, until the rest of the pattern matches
  (the backtracking order of \<open>re\<close>).
\<close>

datatype atom = One "char \<Rightarrow> bool" | Many nat "char \<Rightarrow> bool"

type_synonym pattern = "atom list"

text \<open>
  \<open>try_down lo k cont s\<close>: the repetition has taken \<open>k\<close> characters of \<open>s\<close>; try the
  rest of the pattern (\<open>cont\<close>) after them, then after \<open>k - 1\<close>, and so on, never fewer
  than \<open>lo\<close>. The result is the text matched from the start of \<open>s\<close>.
\<close>

fun try_down :: "nat \<Rightarrow> nat \<Rightarrow> (string \<Rightarrow> string option) \<Rightarrow> string \<Rightarrow> string option" where
  "try_down lo 0 cont s =
     (if lo = 0 then cont s else None)"
| "try_down lo (Suc k) cont s =
     (if Suc k < lo then None
      else (case cont (drop (Suc k) s) of
              Some m \<Rightarrow> Some (take (Suc k) s @ m)
            | None \<Rightarrow> try_down lo k cont s))"

text \<open>\<open>match_here pat s\<close>: the match of \<open>pat\<close> that begins at the first character of \<open>s\<close>.\<close>

primrec match_here :: "pattern \<Rightarrow> string \<Rightarrow> string option" where
  "match_here [] = (\<lambda>s. Some [])"
| "match_here (a # r) =
     (case a of
        One p \<Rightarrow> (\<lambda>s. case s of
                         [] \<Rightarrow> None
                       | c # cs \<Rightarrow> if p c then map_option ((#) c) (match_here r cs) else None)
      | Many n p \<Rightarrow> (\<lambda>s. try_down n (length (takeWhile p s)) (match_here r) s))"

text \<open>
  \<open>re.search(pat, s)\<close> followed by \<open>.group()\<close>: the match at the leftmost position
  of \<open>s\<close> where the pattern matches, or no match.
\<close>

fun re_search :: "pattern \<Rightarrow> string \<Rightarrow> string option" where
  "re_search pat [] = match_here pat []"
| "re_search pat (c # cs) =
     (case match_here pat (c # cs) of
        Some m \<Rightarrow> Some m
      | None \<Rightarrow> re_search pat cs)"

text \<open>
  \<open>re.findall(pat, s)\<close>, whole matches: the matches from left to right, each search
  resuming where the previous match ended (one character further after an empty match).
\<close>

function re_findall :: "pattern \<Rightarrow> string \<Rightarrow> string list" where
  "re_findall pat [] = (case match_here pat [] of Some m \<Rightarrow> [m] | None \<Rightarrow> [])"
| "re_findall pat (c # cs) =
     (case match_here pat (c # cs) of
        None \<Rightarrow> re_findall pat cs
      | Some m \<Rightarrow> m # re_findall pat (drop (length m - 1) cs))"
  by pat_completeness auto
termination
  by (relation "measure (\<lambda>(pat, s). length s)") auto

subsection \<open>Character classes\<close>

definition in_range :: "char \<Rightarrow> char \<Rightarrow> char \<Rightarrow> bool" where
  "in_range lo hi c = ((of_char lo :: nat) \<le> of_char c \<and> (of_char c :: nat) \<le> of_char hi)"

definition alnum :: "char \<Rightarrow> bool" where
  "alnum c = (in_range CHR ''a'' CHR ''z'' c \<or> in_range CHR ''A'' CHR ''Z'' c
              \<or> in_range CHR ''0'' CHR ''9'' c)"

text \<open>\<open>[a-zA-Z0-9._%+-]\<close>\<close>
definition local_char :: "char \<Rightarrow> bool" where
  "local_char c = (alnum c \<or> c \<in> set ''._%+-'')"

text \<open>\<open>[a-zA-Z0-9.-]\<close>\<close>
definition domain_char :: "char \<Rightarrow> bool" where
  "domain_char c = (alnum c \<or> c \<in> set ''.-'')"

text \<open>\<open>[a-zA-Z]\<close>\<close>
definition alpha :: "char \<Rightarrow> bool" where
  "alpha c = (in_range CHR ''a'' CHR ''z'' c \<or> in_range CHR ''A'' CHR ''Z'' c)"

definition lit :: "char \<Rightarrow> atom" where
  "lit x = One (\<lambda>c. c = x)"

section \<open>EmailScraper.find_email\<close>

text \<open>\<open>[a-zA-Z0-9._%+-]+@[a-zA-Z0-9.-]+\\.[a-zA-Z]{2,}\<close>\<close>
definition email_pattern :: pattern where
  "email_pattern =
     [Many 1 local_char, lit CHR ''@'', Many 1 domain_char, lit CHR ''.'', Many 2 alpha]"

definition image_extensions :: "string list" where
  "image_extensions = [''png'', ''jpg'', ''jpeg'', ''gif'', ''svg'', ''bmp'', ''webp'']"

text \<open>
  \<open>None\<close> is Python's \<open>None\<close>. An empty content returns at once; a match ending with one
  of the image extensions returns \<open>None\<close> from inside the loop over the extensions.
\<close>

definition find_email :: "string \<Rightarrow> string option" where
  "find_email content =
     (if content = [] then None
      else (case re_search email_pattern content of
              None \<Rightarrow> None
            | Some result \<Rightarrow>
                if result = [] then None
                else if list_ex (\<lambda>extension. suffix extension result) image_extensions
                then None
                else Some result))"

section \<open>The library functions main.py imports\<close>

text \<open>
  \<open>urllib.parse.urlsplit\<close> and \<open>urllib.parse.urljoin\<close> are not part of main.py; they are
  parameters of the model. \<open>urlsplit u\<close> gives the two components that main.py reads,
  \<open>(scheme, netloc)\<close>.
\<close>

record urllib =
  urlsplit :: "string \<Rightarrow> string \<times> string"
  urljoin :: "string \<Rightarrow> string \<Rightarrow> string"

section \<open>EmailScraper.extract_homepage\<close>

definition extract_homepage :: "urllib \<Rightarrow> string \<Rightarrow> string" where
  "extract_homepage lib url =
     (let (scheme, netloc) = urlsplit lib url in scheme @ ''://'' @ netloc)"

section \<open>EmailScraper.find_contact_urls\<close>

definition dquote :: char where
  "dquote = CHR 0x22"

text \<open>\<open>href="([^"]*)"\<close>\<close>
definition href_pattern :: pattern where
  "href_pattern =
     map lit ''href='' @ [lit dquote, Many 0 (\<lambda>c. c \<noteq> dquote), lit dquote]"

text \<open>
  The group of the pattern: a match is \<open>href="\<close>, the group, and the closing quote, so
  the group is the match without its first six characters and its last one.
\<close>
definition href_group :: "string \<Rightarrow> string" where
  "href_group m = butlast (drop 6 m)"

text \<open>\<open>re.findall(pattern, content)\<close> for a pattern with one group: the groups.\<close>
definition hrefs :: "string \<Rightarrow> string list" where
  "hrefs content = map href_group (re_findall href_pattern content)"

definition contact_words :: "string list" where
  "contact_words = [''contact'', ''about'', ''terms'']"

text \<open>\<open>url.replace("mailto:", "").split("?")[0]\<close>\<close>
definition mailto_email :: "string \<Rightarrow> string" where
  "mailto_email url = split_first CHR ''?'' (remove_all ''mailto:'' url)"

text \<open>The loop of lines 111 to 121, with \<open>contact_urls\<close> as the accumulator.\<close>

fun scan_urls :: "urllib \<Rightarrow> string \<Rightarrow> string list \<Rightarrow> string list \<Rightarrow> string list" where
  "scan_urls lib current_website_url contact_urls [] = contact_urls"
| "scan_urls lib current_website_url contact_urls (url # urls) =
     (if substr_in ''mailto:'' url then
        (let email = mailto_email url
         in if email \<noteq> [] then [email]
            else scan_urls lib current_website_url contact_urls urls)
      else if list_ex (\<lambda>sub. substr_in sub url) contact_words then
        scan_urls lib current_website_url
          (contact_urls @
             [if \<not> substr_in ''http'' url then urljoin lib current_website_url url else url])
          urls
      else scan_urls lib current_website_url contact_urls urls)"

definition find_contact_urls :: "urllib \<Rightarrow> string \<Rightarrow> string \<Rightarrow> string list" where
  "find_contact_urls lib current_website_url content =
     scan_urls lib current_website_url [] (hrefs content)"

section \<open>EmailScraper.fetch\<close>

text \<open>
  What \<open>session.get(url)\<close> does is the network's choice. It answers with a status and a
  body (\<open>Status\<close>); or an exception is raised while the task waits for the network: no
  connection, a timeout, a body that cannot be read (\<open>Failed\<close>); or an exception is raised
  before any input or output, for a URL that aiohttp refuses (\<open>Rejected\<close>). \<open>fetch\<close> catches
  every exception and returns \<open>None\<close>.
\<close>

datatype outcome = Status nat string | Failed | Rejected

type_synonym network = "string \<Rightarrow> outcome"

definition fetch :: "network \<Rightarrow> string \<Rightarrow> string option" where
  "fetch net url =
     (case net url of
        Status code body \<Rightarrow> if code = 200 then Some body else None
      | Failed \<Rightarrow> None
      | Rejected \<Rightarrow> None)"

text \<open>
  \<open>await self.fetch(url, session)\<close> gives control back to the event loop when the
  request reaches the network. A request that is rejected before that does not: the
  exception is caught at once and the task runs on with \<open>None\<close>.
\<close>

definition suspends :: "network \<Rightarrow> string \<Rightarrow> bool" where
  "suspends net url = (net url \<noteq> Rejected)"

text \<open>Python's truth value of an \<open>Optional[str]\<close>: \<open>None\<close> and \<open>""\<close> are false.\<close>

definition truthy :: "string option \<Rightarrow> bool" where
  "truthy v = (case v of None \<Rightarrow> False | Some s \<Rightarrow> s \<noteq> [])"

section \<open>EmailScraper.process_website as a coroutine\<close>

text \<open>
  \<open>process_website\<close> can give control back to the event loop at its two
  \<open>await self.fetch\<close> (lines 135 and 147), and does so when the request suspends;
  \<open>find_email\<close> and \<open>find_contact_urls\<close> contain no await and run through. A task is
  therefore at one of four places: not yet started, waiting for the homepage, waiting for
  a contact page (with the rest of \<open>contact_urls\<close> still to visit), or returned. The
  returned value is \<open>None\<close> or the pair \<open>(homepage, email)\<close>.
\<close>

type_synonym site_result = "(string \<times> string option) option"

datatype task =
    Start string
  | AwaitHome string
  | AwaitContact string string "string list"
  | Done site_result

text \<open>
  The \<open>for\<close> loop of lines 143 to 153 from the top of an iteration, up to the next fetch
  that suspends or the \<open>return\<close> of line 155: the new place of the task and the calls
  of \<open>fetch\<close> made. A candidate whose request is rejected gives \<open>None\<close> at once, and the
  loop goes on to the next (\<open>continue\<close>, line 149).
\<close>

fun contact_loop :: "network \<Rightarrow> string \<Rightarrow> string list \<Rightarrow> task \<times> string list" where
  "contact_loop net homepage [] = (Done (Some (homepage, None)), [])"
| "contact_loop net homepage (contact_url # rest) =
     (if substr_in ''@'' contact_url then (Done (Some (homepage, Some contact_url)), [])
      else if suspends net contact_url then (AwaitContact homepage contact_url rest, [contact_url])
      else (let (t, reqs) = contact_loop net homepage rest in (t, contact_url # reqs)))"

text \<open>
  Lines 136 to 155, once the fetch of the homepage has returned: the homepage is added
  to \<open>ALREADY_PROCESSED\<close>, then the content is looked at.
\<close>

definition after_home :: "urllib \<Rightarrow> network \<Rightarrow> string set \<Rightarrow> string \<Rightarrow> task \<times> string set \<times> string list" where
  "after_home lib net ap homepage =
     (let content = fetch net homepage;
          ap' = insert homepage ap
      in if \<not> truthy content then (Done (Some (homepage, None)), ap', [])
         else (let email = find_email (the content)
               in if \<not> truthy email then
                    (let (t, reqs) = contact_loop net homepage
                                       (find_contact_urls lib homepage (the content))
                     in (t, ap', reqs))
                  else (Done (Some (homepage, email)), ap', [])))"

text \<open>
  One run of a task from where it is to its next await that suspends or to its return,
  given the current \<open>ALREADY_PROCESSED\<close>: the task's new place, the new
  \<open>ALREADY_PROCESSED\<close> and the calls of \<open>fetch\<close> made. A task that waits is resumed with the
  outcome of its request. A task whose request for the homepage is rejected does not
  wait: it adds the homepage and returns in the same run.
\<close>

fun advance :: "urllib \<Rightarrow> network \<Rightarrow> string set \<Rightarrow> task \<Rightarrow> task \<times> string set \<times> string list" where
  "advance lib net ap (Start url) =
     (let homepage = extract_homepage lib url
      in if homepage \<notin> ap then
           (if suspends net homepage then (AwaitHome homepage, ap, [homepage])
            else (let (t, ap', reqs) = after_home lib net ap homepage
                  in (t, ap', homepage # reqs)))
         else (Done None, ap, []))"
| "advance lib net ap (AwaitHome homepage) = after_home lib net ap homepage"
| "advance lib net ap (AwaitContact homepage contact_url rest) =
     (let content = fetch net contact_url
      in if \<not> truthy content then
           (let (t, reqs) = contact_loop net homepage rest in (t, ap, reqs))
         else (let email = find_email (the content)
               in if truthy email then (Done (Some (homepage, email)), ap, [])
                  else (let (t, reqs) = contact_loop net homepage rest in (t, ap, reqs))))"
| "advance lib net ap (Done r) = (Done r, ap, [])"

section \<open>The event loop: asyncio.gather over the tasks\<close>

text \<open>
  The state of a run: \<open>ALREADY_PROCESSED\<close> (a class attribute, shared by all tasks and
  all instances), the tasks in the order of the URLs, and the URLs \<open>fetch\<close> has been
  called with so far.
\<close>

record world =
  processed :: "string set"
  tasks :: "task list"
  fetched :: "string list"

definition resume :: "urllib \<Rightarrow> network \<Rightarrow> nat \<Rightarrow> world \<Rightarrow> world" where
  "resume lib net i w =
     (if i < length (tasks w) then
        (let (t, ap, reqs) = advance lib net (processed w) (tasks w ! i)
         in \<lparr>processed = ap, tasks = (tasks w)[i := t], fetched = fetched w @ reqs\<rparr>)
      else w)"

definition run_schedule :: "urllib \<Rightarrow> network \<Rightarrow> nat list \<Rightarrow> world \<Rightarrow> world" where
  "run_schedule lib net sched w = foldl (\<lambda>w i. resume lib net i w) w sched"

fun is_done :: "task \<Rightarrow> bool" where
  "is_done (Done r) = True"
| "is_done t = False"

fun pending :: "task list \<Rightarrow> nat option" where
  "pending [] = None"
| "pending (t # ts) = (if is_done t then map_option Suc (pending ts) else Some 0)"

text \<open>An upper bound on the number of times a task can still be resumed.\<close>

definition home_steps :: "urllib \<Rightarrow> network \<Rightarrow> string \<Rightarrow> nat" where
  "home_steps lib net homepage =
     (case fetch net homepage of
        None \<Rightarrow> 1
      | Some content \<Rightarrow> 2 + length (find_contact_urls lib homepage content))"

fun remaining :: "urllib \<Rightarrow> network \<Rightarrow> task \<Rightarrow> nat" where
  "remaining lib net (Done r) = 0"
| "remaining lib net (AwaitContact homepage contact_url rest) = Suc (length rest)"
| "remaining lib net (AwaitHome homepage) = home_steps lib net homepage"
| "remaining lib net (Start url) = Suc (home_steps lib net (extract_homepage lib url))"

definition work_left :: "urllib \<Rightarrow> network \<Rightarrow> world \<Rightarrow> nat" where
  "work_left lib net w = sum_list (map (remaining lib net) (tasks w))"

text \<open>
  Every resumption of a task that has not returned lowers the bound, so an event loop
  that keeps resuming tasks comes to an end.
\<close>

lemma pending_SomeD: "pending ts = Some i \<Longrightarrow> i < length ts \<and> \<not> is_done (ts ! i)"
  by (induction ts arbitrary: i) (auto split: if_splits)

lemma pending_None_iff: "pending ts = None \<longleftrightarrow> (\<forall>t\<in>set ts. is_done t)"
  by (induction ts) auto

lemma contact_loop_remaining:
  "remaining lib net (fst (contact_loop net hp cs)) \<le> length cs"
proof (induction cs)
  case Nil
  show ?case by simp
next
  case (Cons c cs)
  then show ?case by (auto simp: Let_def split: prod.splits)
qed

lemma after_home_remaining:
  "remaining lib net (fst (after_home lib net ap hp)) < home_steps lib net hp"
  using contact_loop_remaining[of lib net hp "find_contact_urls lib hp (the (fetch net hp))"]
  by (auto simp: after_home_def Let_def home_steps_def truthy_def split: option.splits prod.splits)

lemma advance_decreases:
  assumes nd: "\<not> is_done t"
  shows "remaining lib net (fst (advance lib net ap t)) < remaining lib net t"
proof (cases t)
  case (Start u)
  have "home_steps lib net (extract_homepage lib u) > 0"
    by (simp add: home_steps_def split: option.splits)
  then show ?thesis
    using Start after_home_remaining[of lib net ap "extract_homepage lib u"]
    by (auto simp: Let_def split: prod.splits)
next
  case (AwaitHome hp)
  then show ?thesis
    using after_home_remaining[of lib net ap hp] by simp
next
  case (AwaitContact hp c cs)
  then show ?thesis
    using contact_loop_remaining[of lib net hp cs]
    by (auto simp: Let_def split: prod.splits)
next
  case (Done r)
  with nd show ?thesis by simp
qed

lemma sum_list_update_less:
  "i < length xs \<Longrightarrow> (y::nat) < xs ! i \<Longrightarrow> sum_list (xs[i := y]) < sum_list xs"
  by (induction xs arbitrary: i) (auto split: nat.splits)

lemma resume_decreases:
  fixes w :: world
  assumes "i < length (tasks w)" "\<not> is_done (tasks w ! i)"
  shows "work_left lib net (resume lib net i w) < work_left lib net w"
proof -
  obtain t ap reqs where adv: "advance lib net (processed w) (tasks w ! i) = (t, ap, reqs)"
    by (cases "advance lib net (processed w) (tasks w ! i)") auto
  have "remaining lib net t < remaining lib net (tasks w ! i)"
    using advance_decreases[OF assms(2), of lib net "processed w"] adv by simp
  then have "sum_list ((map (remaining lib net) (tasks w))[i := remaining lib net t])
             < sum_list (map (remaining lib net) (tasks w))"
    using assms(1) by (intro sum_list_update_less) auto
  then show ?thesis
    using assms(1) adv by (simp add: work_left_def resume_def map_update)
qed

text \<open>
  \<open>drive\<close>: resume the first task that has not returned, until all have returned.
\<close>

function drive :: "urllib \<Rightarrow> network \<Rightarrow> world \<Rightarrow> world" where
  "drive lib net w =
     (case pending (tasks w) of
        None \<Rightarrow> w
      | Some i \<Rightarrow> drive lib net (resume lib net i w))"
  by pat_completeness auto
termination
proof (relation "measure (\<lambda>(lib, net, w). work_left lib net w)")
  show "wf (measure (\<lambda>(lib, net, w). work_left lib net w))" by simp
next
  fix lib :: urllib and net :: network and w :: world and i :: nat
  assume "pending (tasks w) = Some i"
  then have "i < length (tasks w)" "\<not> is_done (tasks w ! i)"
    using pending_SomeD by blast+
  then show "((lib, net, resume lib net i w), (lib, net, w))
             \<in> measure (\<lambda>(lib, net, w). work_left lib net w)"
    using resume_decreases by simp
qed


text \<open>
  \<open>asyncio.gather(*tasks)\<close> (line 163). Each coroutine becomes a task whose first step
  is queued at once, so the event loop first starts every task, in the order of the
  arguments, each up to its first await that suspends, or to its return when none of
  its requests reaches the network. After that it resumes a waiting task when its
  request completes: \<open>sched\<close> is the order in which the network lets tasks continue, and
  the tasks it leaves unfinished are driven to their end in the order of their index.
\<close>

definition start_all :: "urllib \<Rightarrow> network \<Rightarrow> world \<Rightarrow> world" where
  "start_all lib net w = run_schedule lib net [0 ..< length (tasks w)] w"

definition gather :: "urllib \<Rightarrow> network \<Rightarrow> nat list \<Rightarrow> world \<Rightarrow> world" where
  "gather lib net sched w = drive lib net (run_schedule lib net sched (start_all lib net w))"

text \<open>The value a task has returned (every task has returned when \<open>gather\<close> is over).\<close>

fun returned :: "task \<Rightarrow> site_result" where
  "returned (Done r) = r"
| "returned t = None"

section \<open>EmailScraper.scrape_emails\<close>

datatype py_error = TypeError

text \<open>
  Lines 167 to 170: the header row, then \<open>for url, email in results\<close>. Unpacking a
  result that is \<open>None\<close> raises \<open>TypeError\<close>; a pair whose email is false writes no row.
\<close>

fun write_rows :: "site_result list \<Rightarrow> string list list \<Rightarrow> py_error + string list list" where
  "write_rows [] rows = Inr rows"
| "write_rows (None # results) rows = Inl TypeError"
| "write_rows (Some (url, email) # results) rows =
     write_rows results (if truthy email then rows @ [[url, the email]] else rows)"

definition write_csv :: "site_result list \<Rightarrow> py_error + string list list" where
  "write_csv results = write_rows results [[''Website'', ''Email'']]"

definition new_run :: "string set \<Rightarrow> string list \<Rightarrow> world" where
  "new_run ap urls = \<lparr>processed = ap, tasks = map Start urls, fetched = []\<rparr>"

text \<open>
  \<open>scrape_emails\<close>, given the value of \<open>ALREADY_PROCESSED\<close> when it is called and the URLs
  that \<open>search_keyword\<close> returns: the results of \<open>gather\<close> (in the order of the URLs), the
  value of \<open>ALREADY_PROCESSED\<close> afterwards, the requests issued, and the rows written or
  the exception raised.
\<close>

record run_report =
  results :: "site_result list"
  processed_after :: "string set"
  requests :: "string list"
  csv :: "py_error + string list list"

definition scrape_emails :: "urllib \<Rightarrow> network \<Rightarrow> nat list \<Rightarrow> string set \<Rightarrow> string list \<Rightarrow> run_report" where
  "scrape_emails lib net sched ap urls =
     (let w = gather lib net sched (new_run ap urls);
          rs = map returned (tasks w)
      in \<lparr>results = rs, processed_after = processed w, requests = fetched w,
          csv = write_csv rs\<rparr>)"

text \<open>
  \<open>process_website\<close> awaited on its own, with no other task running: the value it
  returns, \<open>ALREADY_PROCESSED\<close> afterwards and the requests it issued.
\<close>

definition process_website :: "urllib \<Rightarrow> network \<Rightarrow> string set \<Rightarrow> string \<Rightarrow> site_result \<times> string set \<times> string list" where
  "process_website lib net ap url =
     (let w = drive lib net (new_run ap [url])
      in (returned (tasks w ! 0), processed w, fetched w))"

section \<open>The fallback chain over the contact candidates\<close>

text \<open>
  A contact candidate that gives no email: it has no \<open>@\<close>, and either its fetch fails
  or the page fetched holds no email.
\<close>

definition no_email_at :: "network \<Rightarrow> string \<Rightarrow> bool" where
  "no_email_at net c =
     (\<not> substr_in ''@'' c \<and>
      (case fetch net c of None \<Rightarrow> True | Some page \<Rightarrow> find_email page = None))"

text \<open>
  The loop of lines 143 to 153 run on its own from the top of an iteration, with
  \<open>f\<close> the requests issued before.
\<close>

definition chain :: "urllib \<Rightarrow> network \<Rightarrow> string set \<Rightarrow> string \<Rightarrow> string list \<Rightarrow> string list \<Rightarrow> world" where
  "chain lib net ap hp f cs =
     drive lib net \<lparr>processed = ap, tasks = [fst (contact_loop net hp cs)],
                    fetched = f @ snd (contact_loop net hp cs)\<rparr>"

section \<open>Words of the specification about find_contact_urls\<close>

text \<open>
  An href value that ends the scan: it contains \<open>mailto:\<close> and what is left of it after
  the removal and the cut at \<open>?\<close> is not empty.
\<close>

definition short_circuits :: "string \<Rightarrow> bool" where
  "short_circuits v = (substr_in ''mailto:'' v \<and> mailto_email v \<noteq> [])"

text \<open>The pieces \<open>ps\<close> with \<open>sep\<close> between each two of them.\<close>

fun joined :: "string \<Rightarrow> string list \<Rightarrow> string" where
  "joined sep [] = []"
| "joined sep [p] = p"
| "joined sep (p # q # ps) = p @ sep @ joined sep (q # ps)"

text \<open>
  The email of a mailto value in the words of the specification: strip the prefix
  \<open>mailto:\<close>, strip any trailing \<open>?\<close> query.
\<close>

definition spec_mailto_email :: "string \<Rightarrow> string" where
  "spec_mailto_email v = split_first CHR ''?'' (drop (length ''mailto:'') v)"

section \<open>Words of the specification about find_email\<close>

text \<open>
  The strings a pattern describes, with no order of preference among them: what it is
  for a string to match the pattern as a whole.
\<close>

fun matches :: "pattern \<Rightarrow> string \<Rightarrow> bool" where
  "matches [] w = (w = [])"
| "matches (One p # r) w = (\<exists>c cs. w = c # cs \<and> p c \<and> matches r cs)"
| "matches (Many n p # r) w =
     (\<exists>u v. w = u @ v \<and> n \<le> length u \<and> (\<forall>c\<in>set u. p c) \<and> matches r v)"

text \<open>
  \<open>local-part@domain.tld\<close>: the local part one or more of \<open>[A-Za-z0-9._%+-]\<close>, the domain
  one or more of \<open>[A-Za-z0-9.-]\<close>, the top-level segment two or more letters.
\<close>

definition email_shape :: "string \<Rightarrow> bool" where
  "email_shape w =
     (\<exists>l d t. w = l @ ''@'' @ d @ ''.'' @ t
        \<and> l \<noteq> [] \<and> (\<forall>c\<in>set l. local_char c)
        \<and> d \<noteq> [] \<and> (\<forall>c\<in>set d. domain_char c)
        \<and> 2 \<le> length t \<and> (\<forall>c\<in>set t. alpha c))"

section \<open>Invariants of a run\<close>


text \<open>A task that has requested the homepage \<open>hp\<close>: it ends with a result for \<open>hp\<close>.\<close>

fun at_home :: "string \<Rightarrow> task \<Rightarrow> bool" where
  "at_home hp (Start u) = False"
| "at_home hp (AwaitHome h) = (h = hp)"
| "at_home hp (AwaitContact h c cs) = (h = hp)"
| "at_home hp (Done r) = (\<exists>e. r = Some (hp, e))"

text \<open>A property of the world that no resumption of any task destroys.\<close>

definition keeps :: "(world \<Rightarrow> bool) \<Rightarrow> urllib \<Rightarrow> network \<Rightarrow> bool" where
  "keeps P lib net = (\<forall>w i. P w \<longrightarrow> P (resume lib net i w))"

section \<open>Inputs for the examples\<close>

text \<open>
  A stand-in for \<open>urllib.parse\<close> on which the model can be run: right on URLs of the form
  \<open>scheme://host/path\<close> and on a path joined to a base \<open>scheme://host\<close>.
\<close>

definition example_urllib :: urllib where
  "example_urllib =
     \<lparr>urlsplit = (\<lambda>u. let scheme = takeWhile (\<lambda>c. c \<noteq> CHR '':'') u
                      in (scheme, takeWhile (\<lambda>c. c \<noteq> CHR ''/'') (drop (length scheme + 3) u))),
      urljoin = (\<lambda>base u. if prefix ''/'' u then base @ u else base @ ''/'' @ u)\<rparr>"

text \<open>The HTML \<open><a href="v">\<close>.\<close>

definition anchor :: "string \<Rightarrow> string" where
  "anchor v = ''<a href='' @ [dquote] @ v @ [dquote] @ ''>''"

text \<open>
  A network with one site: its homepage has three contact links and no email, the
  page \<open>/about\<close> cannot be fetched, the page \<open>/contact\<close> holds an email.
\<close>

definition example_network :: network where
  "example_network =
     (\<lambda>u. if u = ''https://a.com''
            then Status 200 (anchor ''/about'' @ anchor ''/contact'' @ anchor ''/terms'')
          else if u = ''https://a.com/contact'' then Status 200 ''mail me: me@a.com''
          else Failed)"

section \<open>Properties\<close>

subsection \<open>The event loop and a task on its own\<close>

declare drive.simps [simp del]

lemma drive_finished: "pending (tasks w) = None \<Longrightarrow> drive lib net w = w"
  by (subst drive.simps) simp

lemma drive_resume: "pending (tasks w) = Some i \<Longrightarrow> drive lib net w = drive lib net (resume lib net i w)"
  by (subst drive.simps) simp

lemma find_email_nonempty: "find_email content = Some e \<Longrightarrow> e \<noteq> []"
  by (auto simp: find_email_def split: if_splits option.splits)

lemma truthy_find_email: "truthy (find_email content) \<longleftrightarrow> find_email content \<noteq> None"
  by (cases "find_email content") (auto simp: truthy_def dest: find_email_nonempty)

text \<open>A world with a single task: one step, and the end.\<close>

lemma solo_done:
  "drive lib net \<lparr>processed = ap, tasks = [Done r], fetched = f\<rparr>
     = \<lparr>processed = ap, tasks = [Done r], fetched = f\<rparr>"
  by (rule drive_finished) simp

lemma solo_step:
  assumes "\<not> is_done t" "advance lib net ap t = (t', ap', reqs)"
  shows "drive lib net \<lparr>processed = ap, tasks = [t], fetched = f\<rparr>
     = drive lib net \<lparr>processed = ap', tasks = [t'], fetched = f @ reqs\<rparr>"
proof -
  have "pending (tasks \<lparr>processed = ap, tasks = [t], fetched = f\<rparr>) = Some 0"
    using assms(1) by simp
  then show ?thesis
    using assms(2) by (simp add: drive_resume resume_def)
qed

lemma fetch_iff_200: "fetch net url = Some body \<longleftrightarrow> net url = Status 200 body"
  by (auto simp: fetch_def split: outcome.splits)

lemma fetch_None_iff: "fetch net url = None \<longleftrightarrow> (\<forall>body. net url \<noteq> Status 200 body)"
  by (auto simp: fetch_def split: outcome.splits)

lemma fetch_suspends: "fetch net url = Some body \<Longrightarrow> suspends net url"
  by (auto simp: fetch_def suspends_def split: outcome.splits)

lemma after_home_failed:
  "fetch net hp = None \<Longrightarrow>
   after_home lib net ap hp = (Done (Some (hp, None)), insert hp ap, [])"
  by (simp add: after_home_def truthy_def Let_def)

lemma process_website_failed_home:
  assumes "extract_homepage lib url \<notin> ap" "fetch net (extract_homepage lib url) = None"
  shows "process_website lib net ap url
         = (Some (extract_homepage lib url, None), insert (extract_homepage lib url) ap,
            [extract_homepage lib url])"
proof -
  let ?hp = "extract_homepage lib url"
  let ?end = "\<lparr>processed = insert ?hp ap, tasks = [Done (Some (?hp, None))], fetched = [?hp]\<rparr>"
  have "drive lib net (new_run ap [url]) = ?end"
  proof (cases "suspends net ?hp")
    case True
    then have 1: "advance lib net ap (Start url) = (AwaitHome ?hp, ap, [?hp])"
      using assms(1) by (simp add: Let_def)
    have 2: "advance lib net ap (AwaitHome ?hp) = (Done (Some (?hp, None)), insert ?hp ap, [])"
      using assms(2) by (simp add: after_home_failed)
    show ?thesis
      unfolding new_run_def
      using solo_step[OF _ 1, of "[]"] solo_step[OF _ 2, of "[?hp]"] solo_done
      by simp
  next
    case False
    then have 1: "advance lib net ap (Start url) = (Done (Some (?hp, None)), insert ?hp ap, [?hp])"
      using assms by (simp add: Let_def after_home_failed)
    show ?thesis
      unfolding new_run_def
      using solo_step[OF _ 1, of "[]"] solo_done
      by simp
  qed
  then show ?thesis by (simp add: process_website_def)
qed


subsection \<open>fetch and a homepage that cannot be fetched\<close>

text \<open>
  C9. \<open>fetch\<close> returns the body exactly when the status is 200; every other status and
  every exception gives the value \<open>None\<close>, nothing is raised. When the fetch of the
  homepage fails, \<open>process_website\<close> returns \<open>(homepage, None)\<close>, having issued that one
  request.
\<close>

theorem fetch_200_else_none_and_failed_homepage:
  "(fetch net url = Some body \<longleftrightarrow> net url = Status 200 body)
   \<and> ((\<forall>b. net url \<noteq> Status 200 b) \<longrightarrow> fetch net url = None)
   \<and> (extract_homepage lib u \<notin> ap \<and> fetch net (extract_homepage lib u) = None \<longrightarrow>
        process_website lib net ap u
        = (Some (extract_homepage lib u, None), insert (extract_homepage lib u) ap,
           [extract_homepage lib u]))"
proof (intro conjI impI)
  show "fetch net url = Some body \<longleftrightarrow> net url = Status 200 body"
    by (rule fetch_iff_200)
next
  assume "\<forall>b. net url \<noteq> Status 200 b"
  then show "fetch net url = None"
    by (simp add: fetch_None_iff)
next
  assume "extract_homepage lib u \<notin> ap \<and> fetch net (extract_homepage lib u) = None"
  then show "process_website lib net ap u
        = (Some (extract_homepage lib u, None), insert (extract_homepage lib u) ap,
           [extract_homepage lib u])"
    by (simp add: process_website_failed_home)
qed

theorem fetch_200_else_none_and_failed_homepage_witness:
  "fetch (\<lambda>u. Status 404 ''gone'') ''https://a.com'' = None
   \<and> process_website example_urllib (\<lambda>u. Status 404 ''gone'') {} ''https://a.com/x''
       = (Some (''https://a.com'', None), {''https://a.com''}, [''https://a.com''])"
  using fetch_200_else_none_and_failed_homepage
          [of "\<lambda>u. Status 404 ''gone''" "''https://a.com''" "[]" example_urllib
              "''https://a.com/x''" "{}"]
  by (simp add: extract_homepage_def example_urllib_def fetch_def)

subsection \<open>The fallback chain\<close>

lemma chain_Nil:
  "chain lib net ap hp f [] = \<lparr>processed = ap, tasks = [Done (Some (hp, None))], fetched = f\<rparr>"
  by (simp add: chain_def solo_done)

lemma chain_at:
  "substr_in ''@'' c \<Longrightarrow>
   chain lib net ap hp f (c # cs) = \<lparr>processed = ap, tasks = [Done (Some (hp, Some c))], fetched = f\<rparr>"
  by (simp add: chain_def solo_done)

lemma chain_miss:
  assumes "no_email_at net c"
  shows "chain lib net ap hp f (c # cs) = chain lib net ap hp (f @ [c]) cs"
proof (cases "suspends net c")
  case True
  have adv: "advance lib net ap (AwaitContact hp c cs)
             = (fst (contact_loop net hp cs), ap, snd (contact_loop net hp cs))"
    using assms
    by (auto simp: no_email_at_def Let_def truthy_def truthy_find_email
             split: option.splits prod.splits)
  show ?thesis
    using assms True solo_step[OF _ adv, of "f @ [c]"]
    by (simp add: chain_def no_email_at_def)
next
  case False
  then show ?thesis
    using assms by (simp add: chain_def no_email_at_def Let_def split: prod.splits)
qed

lemma chain_hit:
  assumes "\<not> substr_in ''@'' c" "fetch net c = Some page" "find_email page = Some email"
  shows "chain lib net ap hp f (c # cs)
         = \<lparr>processed = ap, tasks = [Done (Some (hp, Some email))], fetched = f @ [c]\<rparr>"
proof -
  have ne: "page \<noteq> []"
    using assms(3) by (auto simp: find_email_def)
  have sus: "suspends net c"
    using assms(2) by (rule fetch_suspends)
  have adv: "advance lib net ap (AwaitContact hp c cs) = (Done (Some (hp, Some email)), ap, [])"
    using assms ne find_email_nonempty[OF assms(3)]
    by (simp add: Let_def truthy_def)
  show ?thesis
    using assms(1) sus solo_step[OF _ adv, of "f @ [c]"]
    by (simp add: chain_def solo_done)
qed

lemma chain_misses:
  "\<forall>c\<in>set pre. no_email_at net c \<Longrightarrow>
   chain lib net ap hp f (pre @ cs) = chain lib net ap hp (f @ pre) cs"
  by (induction pre arbitrary: f) (simp_all add: chain_miss)

lemma process_website_chain:
  assumes "extract_homepage lib url = hp" "hp \<notin> ap"
    and "fetch net hp = Some content" "content \<noteq> []" "find_email content = None"
  shows "drive lib net (new_run ap [url])
         = chain lib net (insert hp ap) hp [hp] (find_contact_urls lib hp content)"
proof -
  have sus: "suspends net hp"
    using assms(3) by (rule fetch_suspends)
  have 1: "advance lib net ap (Start url) = (AwaitHome hp, ap, [hp])"
    using assms(1,2) sus by (auto simp: Let_def)
  obtain t reqs where cl: "contact_loop net hp (find_contact_urls lib hp content) = (t, reqs)"
    by (cases "contact_loop net hp (find_contact_urls lib hp content)") auto
  have 2: "advance lib net ap (AwaitHome hp) = (t, insert hp ap, reqs)"
    using assms(3,4,5) cl by (simp add: after_home_def Let_def truthy_def)
  show ?thesis
    unfolding new_run_def chain_def
    using solo_step[OF _ 1, of "[]"] solo_step[OF _ 2, of "[hp]"] cl
    by simp
qed

text \<open>
  C8. The homepage has been fetched and holds no email. Over the contact candidates in
  their order: as long as candidates give no email (no \<open>@\<close>, and the fetch fails or the
  page holds no email) the next one is tried. A candidate with an \<open>@\<close> becomes the email
  and is not fetched; a candidate whose page holds an email ends the loop with that
  email; in both cases no later candidate is fetched. When no candidate is left the
  email is \<open>None\<close>. The third component is the list of the URLs \<open>fetch\<close> was called with.
\<close>

theorem fallback_chain:
  assumes "extract_homepage lib url = hp" "hp \<notin> ap"
    and "fetch net hp = Some content" "content \<noteq> []" "find_email content = None"
    and "find_contact_urls lib hp content = pre @ rest"
    and "\<forall>c\<in>set pre. no_email_at net c"
  shows "(rest = [] \<longrightarrow>
            process_website lib net ap url = (Some (hp, None), insert hp ap, hp # pre))
       \<and> (\<forall>c post. rest = c # post \<and> substr_in ''@'' c \<longrightarrow>
            process_website lib net ap url = (Some (hp, Some c), insert hp ap, hp # pre))
       \<and> (\<forall>c post page email.
            rest = c # post \<and> \<not> substr_in ''@'' c \<and> fetch net c = Some page
            \<and> find_email page = Some email \<longrightarrow>
            process_website lib net ap url
            = (Some (hp, Some email), insert hp ap, hp # pre @ [c]))"
proof -
  have run: "drive lib net (new_run ap [url]) = chain lib net (insert hp ap) hp (hp # pre) rest"
    using process_website_chain[OF assms(1-5)] chain_misses[OF assms(7)] assms(6)
    by simp
  show ?thesis
  proof (intro conjI allI impI)
    assume "rest = []"
    then show "process_website lib net ap url = (Some (hp, None), insert hp ap, hp # pre)"
      using run by (simp add: process_website_def chain_Nil)
  next
    fix c post
    assume "rest = c # post \<and> substr_in ''@'' c"
    then show "process_website lib net ap url = (Some (hp, Some c), insert hp ap, hp # pre)"
      using run by (simp add: process_website_def chain_at)
  next
    fix c post page email
    assume "rest = c # post \<and> \<not> substr_in ''@'' c \<and> fetch net c = Some page
            \<and> find_email page = Some email"
    then show "process_website lib net ap url
            = (Some (hp, Some email), insert hp ap, hp # pre @ [c])"
      using run chain_hit[of c net page email lib "insert hp ap" hp "hp # pre" post]
      by (simp add: process_website_def)
  qed
qed

lemmas example_values = extract_homepage_def example_urllib_def fetch_def example_network_def
  anchor_def dquote_def find_email_def email_pattern_def lit_def local_char_def domain_char_def
  alpha_def alnum_def in_range_def image_extensions_def suffix_to_prefix find_contact_urls_def
  hrefs_def href_pattern_def href_group_def contact_words_def mailto_email_def split_first_def
  no_email_at_def

theorem fallback_chain_witness:
  "no_email_at example_network ''https://a.com/about''
   \<and> process_website example_urllib example_network {} ''https://a.com/x''
       = (Some (''https://a.com'', Some ''me@a.com''), {''https://a.com''},
          [''https://a.com'', ''https://a.com/about'', ''https://a.com/contact''])"
proof -
  let ?page = "anchor ''/about'' @ anchor ''/contact'' @ anchor ''/terms''"
  have a: "extract_homepage example_urllib ''https://a.com/x'' = ''https://a.com''"
    by (simp add: extract_homepage_def example_urllib_def)
  have b: "fetch example_network ''https://a.com'' = Some ?page"
    by (simp add: fetch_def example_network_def)
  have c: "?page \<noteq> []"
    by (simp add: anchor_def)
  have d: "find_email ?page = None"
    by (simp add: example_values)
  have e: "find_contact_urls example_urllib ''https://a.com'' ?page
           = [''https://a.com/about''] @ [''https://a.com/contact'', ''https://a.com/terms'']"
    by (simp add: example_values)
  have f: "\<forall>c\<in>set [''https://a.com/about'']. no_email_at example_network c"
    by (simp add: no_email_at_def fetch_def example_network_def)
  have g: "\<not> substr_in ''@'' ''https://a.com/contact''
           \<and> fetch example_network ''https://a.com/contact'' = Some ''mail me: me@a.com''
           \<and> find_email ''mail me: me@a.com'' = Some ''me@a.com''"
    by (simp add: example_values)
  show ?thesis
    using fallback_chain[OF a _ b c d e f] f g by simp
qed

subsection \<open>find_contact_urls\<close>

lemma substr_in_iff: "substr_in sub s \<longleftrightarrow> (\<exists>a b. s = a @ sub @ b)"
proof (induction s)
  case Nil
  then show ?case by auto
next
  case (Cons c cs)
  show ?case
  proof
    assume "substr_in sub (c # cs)"
    then consider "prefix sub (c # cs)" | "substr_in sub cs" by auto
    then show "\<exists>a b. c # cs = a @ sub @ b"
    proof cases
      case 1
      then obtain b where "c # cs = sub @ b" by (auto simp: prefix_def)
      then have "c # cs = [] @ sub @ b" by simp
      then show ?thesis by blast
    next
      case 2
      then obtain a b where "cs = a @ sub @ b" using Cons.IH by blast
      then have "c # cs = (c # a) @ sub @ b" by simp
      then show ?thesis by blast
    qed
  next
    assume "\<exists>a b. c # cs = a @ sub @ b"
    then obtain a b where ab: "c # cs = a @ sub @ b" by blast
    show "substr_in sub (c # cs)"
    proof (cases a)
      case Nil
      then have "prefix sub (c # cs)" using ab by (simp add: prefix_def)
      then show ?thesis by simp
    next
      case (Cons x a')
      then have "cs = a' @ sub @ b" using ab by simp
      then have "substr_in sub cs" using Cons.IH by blast
      then show ?thesis by simp
    qed
  qed
qed

lemma scan_urls_eq:
  "scan_urls lib base acc us =
     (case find short_circuits us of
        Some u \<Rightarrow> [mailto_email u]
      | None \<Rightarrow> acc @ map (\<lambda>v. if substr_in ''http'' v then v else urljoin lib base v)
                        (filter (\<lambda>v. \<not> substr_in ''mailto:'' v \<and>
                                  (substr_in ''contact'' v \<or> substr_in ''about'' v
                                   \<or> substr_in ''terms'' v)) us))"
proof (induction us arbitrary: acc)
  case Nil
  show ?case by simp
next
  case (Cons u us)
  show ?case
  proof (cases "substr_in ''mailto:'' u")
    case True
    then show ?thesis
      using Cons.IH[of acc] by (simp add: short_circuits_def Let_def split: option.splits)
  next
    case False
    then have nsc: "\<not> short_circuits u" by (simp add: short_circuits_def)
    show ?thesis
    proof (cases "substr_in ''contact'' u \<or> substr_in ''about'' u \<or> substr_in ''terms'' u")
      case True
      then have "list_ex (\<lambda>sub. substr_in sub u) contact_words"
        by (simp add: contact_words_def)
      then show ?thesis
        using False nsc True Cons.IH[of "acc @ [if \<not> substr_in ''http'' u then urljoin lib base u else u]"]
        by (simp split: option.splits)
    next
      case no: False
      then have "\<not> list_ex (\<lambda>sub. substr_in sub u) contact_words"
        by (simp add: contact_words_def)
      then show ?thesis
        using False nsc no Cons.IH[of acc] by (simp split: option.splits)
    qed
  qed
qed

lemma find_first:
  "\<forall>v\<in>set pre. \<not> P v \<Longrightarrow> P u \<Longrightarrow> find P (pre @ u # post) = Some u"
  by (induction pre) auto

lemma find_none: "\<forall>v\<in>set us. \<not> P v \<Longrightarrow> find P us = None"
  by (induction us) auto

text \<open>
  An occurrence of a word whose first character does not occur again in it cannot
  overlap another occurrence.
\<close>

lemma no_overlap:
  assumes pre: "prefix old (a @ old @ b)" and a: "a \<noteq> []"
    and old: "old \<noteq> []" "hd old \<notin> set (tl old)"
  shows "prefix old a"
proof (rule ccontr)
  assume np: "\<not> prefix old a"
  have len: "length a < length old"
  proof (rule ccontr)
    assume "\<not> length a < length old"
    then have "length old \<le> length a" by simp
    moreover have "prefix a (a @ old @ b)" by simp
    ultimately have "prefix old a"
      using pre prefix_length_prefix by blast
    then show False using np by simp
  qed
  obtain x xs where x: "old = x # xs" using old(1) by (cases old) auto
  have "(a @ old @ b) ! length a = x"
    by (simp add: nth_append x)
  moreover have "(a @ old @ b) ! length a = old ! length a"
  proof -
    obtain zs where zs: "a @ old @ b = old @ zs"
      using pre by (auto simp: prefix_def)
    have "(old @ zs) ! length a = old ! length a"
      using len by (simp add: nth_append)
    then show ?thesis using zs by simp
  qed
  ultimately have "old ! length a = x" by simp
  moreover obtain n where n: "length a = Suc n" using a by (cases a) auto
  ultimately have "xs ! n = x" "n < length xs"
    using len x by auto
  then have "x \<in> set xs" using nth_mem by blast
  then show False using old(2) x by simp
qed

lemma remove_all_prefix:
  "old \<noteq> [] \<Longrightarrow> remove_all old (old @ b) = remove_all old b"
  by (cases old) auto

lemma remove_all_first:
  assumes old: "old \<noteq> []" "hd old \<notin> set (tl old)"
  shows "\<not> substr_in old a \<Longrightarrow> remove_all old (a @ old @ b) = a @ remove_all old b"
proof (induction a)
  case Nil
  show ?case using old(1) by (simp add: remove_all_prefix)
next
  case (Cons c a)
  have np: "\<not> prefix old (c # a)" and ns: "\<not> substr_in old a"
    using Cons.prems by auto
  have "\<not> prefix old ((c # a) @ old @ b)"
    using no_overlap[of old "c # a" b] np old by blast
  then have "remove_all old ((c # a) @ old @ b) = c # remove_all old (a @ old @ b)"
    by simp
  then show ?case
    using Cons.IH[OF ns] by simp
qed

lemma mailto_first:
  "\<not> substr_in ''mailto:'' a \<Longrightarrow>
   remove_all ''mailto:'' (a @ ''mailto:'' @ b) = a @ remove_all ''mailto:'' b"
  by (rule remove_all_first) simp_all

lemma remove_all_absent:
  "\<not> substr_in old s \<Longrightarrow> remove_all old s = s"
  by (induction s) auto

lemma remove_all_joined_gen:
  "old \<noteq> [] \<Longrightarrow> hd old \<notin> set (tl old) \<Longrightarrow> \<forall>p\<in>set ps. \<not> substr_in old p \<Longrightarrow>
   remove_all old (joined old ps) = concat ps"
proof (induction old ps rule: joined.induct)
  case (1 sep)
  show ?case by simp
next
  case (2 sep p)
  then show ?case by (simp add: remove_all_absent)
next
  case (3 sep p q ps)
  have "remove_all sep (p @ sep @ joined sep (q # ps)) = p @ remove_all sep (joined sep (q # ps))"
    using remove_all_first[of sep p "joined sep (q # ps)"] "3.prems" by simp
  then show ?case
    using 3 by simp
qed

lemma remove_all_joined:
  "\<forall>p\<in>set ps. \<not> substr_in ''mailto:'' p \<Longrightarrow>
   remove_all ''mailto:'' (joined ''mailto:'' ps) = concat ps"
  by (rule remove_all_joined_gen) simp_all

lemma find_contact_urls_mailto:
  assumes "hrefs content = pre @ u # post" "\<forall>v\<in>set pre. \<not> short_circuits v"
    and "substr_in ''mailto:'' u" "mailto_email u \<noteq> []"
  shows "find_contact_urls lib base content = [mailto_email u]"
proof -
  have "find short_circuits (hrefs content) = Some u"
    using assms by (simp add: find_first short_circuits_def)
  then show ?thesis
    by (simp add: find_contact_urls_def scan_urls_eq)
qed

text \<open>
  C10, as amended. An href value is a mailto value as soon as \<open>mailto:\<close> occurs anywhere
  in it. The first such value in the document that leaves a non-empty email is returned
  as the sole result, and its email is the value with every occurrence of \<open>mailto:\<close>
  removed, cut at the first \<open>?\<close>: for pieces without \<open>mailto:\<close>, joined by \<open>mailto:\<close>, it is
  the pieces put together. A mailto value that leaves an empty email is passed over: the
  scan goes on with the links collected so far, the value not among them.
\<close>

theorem mailto_anywhere_every_occurrence:
  assumes "hrefs content = pre @ u # post" "\<forall>v\<in>set pre. \<not> short_circuits v"
    and "substr_in ''mailto:'' u" "mailto_email u \<noteq> []"
  shows "find_contact_urls lib base content = [mailto_email u]
         \<and> (\<forall>ps. u = joined ''mailto:'' ps \<and> (\<forall>p\<in>set ps. \<not> substr_in ''mailto:'' p)
                \<longrightarrow> mailto_email u = split_first CHR ''?'' (concat ps))
         \<and> (\<forall>v acc us. substr_in ''mailto:'' v \<and> mailto_email v = []
                \<longrightarrow> scan_urls lib base acc (v # us) = scan_urls lib base acc us)"
proof (intro conjI allI impI)
  show "find_contact_urls lib base content = [mailto_email u]"
    by (rule find_contact_urls_mailto[OF assms])
next
  fix ps
  assume "u = joined ''mailto:'' ps \<and> (\<forall>p\<in>set ps. \<not> substr_in ''mailto:'' p)"
  then show "mailto_email u = split_first CHR ''?'' (concat ps)"
    using remove_all_joined by (simp add: mailto_email_def)
next
  fix v acc us
  assume "substr_in ''mailto:'' v \<and> mailto_email v = []"
  then show "scan_urls lib base acc (v # us) = scan_urls lib base acc us"
    by (simp add: Let_def)
qed

theorem mailto_anywhere_every_occurrence_witness:
  "find_contact_urls example_urllib ''https://x.com''
      (anchor ''/about'' @ anchor ''see mailto:infomailto:@x.com?subject=mailto:hi'' @ anchor ''/contact'')
   = [''see info@x.com'']
   \<and> scan_urls example_urllib ''https://x.com'' [''https://x.com/about''] [''mailto:?subject=hi'', ''/terms'']
     = scan_urls example_urllib ''https://x.com'' [''https://x.com/about''] [''/terms'']"
proof -
  let ?u = "''see mailto:infomailto:@x.com?subject=mailto:hi''"
  have h: "hrefs (anchor ''/about'' @ anchor ?u @ anchor ''/contact'') = [''/about''] @ ?u # [''/contact'']"
    by (simp add: example_values)
  have p: "\<forall>v\<in>set [''/about'']. \<not> short_circuits v"
    by (simp add: short_circuits_def)
  have s: "substr_in ''mailto:'' ?u" by simp
  have m: "mailto_email ?u = ''see info@x.com''"
    by (simp add: mailto_email_def split_first_def)
  have j: "?u = joined ''mailto:'' [''see '', ''info'', ''@x.com?subject='', ''hi'']
           \<and> (\<forall>p\<in>set [''see '', ''info'', ''@x.com?subject='', ''hi'']. \<not> substr_in ''mailto:'' p)"
    by simp
  have n: "mailto_email ?u \<noteq> []" using m by simp
  have e: "substr_in ''mailto:'' ''mailto:?subject=hi'' \<and> mailto_email ''mailto:?subject=hi'' = []"
    by (simp add: mailto_email_def split_first_def)
  note t = mailto_anywhere_every_occurrence[OF h p s n, of example_urllib "''https://x.com''"]
  have 1: "find_contact_urls example_urllib ''https://x.com''
             (anchor ''/about'' @ anchor ?u @ anchor ''/contact'') = [mailto_email ?u]"
    using t by (rule conjunct1)
  have 2: "mailto_email ?u = split_first CHR ''?'' (concat [''see '', ''info'', ''@x.com?subject='', ''hi''])"
    using t j by blast
  have 3: "scan_urls example_urllib ''https://x.com'' [''https://x.com/about''] [''mailto:?subject=hi'', ''/terms'']
     = scan_urls example_urllib ''https://x.com'' [''https://x.com/about''] [''/terms'']"
    using t e by blast
  have "split_first CHR ''?'' (concat [''see '', ''info'', ''@x.com?subject='', ''hi'']) = ''see info@x.com''"
    by (simp add: split_first_def)
  then show ?thesis
    using 1 2 3 by (simp only:) 
qed

text \<open>
  C10 as stated fails: the value \<open>mailto:\<close> is a mailto value and is not returned, the
  result is the contact link that follows it; and of two mailto values only the first is
  returned.
\<close>

theorem empty_mailto_not_returned_counterexample:
  "find_contact_urls example_urllib ''https://x.com'' (anchor ''mailto:'' @ anchor ''/terms'')
     = [''https://x.com/terms'']
   \<and> find_contact_urls example_urllib ''https://x.com''
       (anchor ''mailto:a@b.co'' @ anchor ''see mailto:c@d.eu'')
     = [''a@b.co'']"
  by (simp add: example_values scan_urls_eq short_circuits_def)

text \<open>
  C6, as amended. Of the first href value that contains \<open>mailto:\<close> and leaves a non-empty
  email: when it begins with \<open>mailto:\<close>, the result is the single email obtained by
  removing the prefix and every further occurrence of \<open>mailto:\<close>, cut at the first \<open>?\<close>.
  When the rest of the value holds no further \<open>mailto:\<close>, this is the prefix and the
  query stripped, as the specification says.
\<close>

theorem mailto_prefix_first_wins:
  assumes "hrefs content = pre @ (''mailto:'' @ r) # post" "\<forall>v\<in>set pre. \<not> short_circuits v"
    and "split_first CHR ''?'' (remove_all ''mailto:'' r) \<noteq> []"
  shows "find_contact_urls lib base content = [split_first CHR ''?'' (remove_all ''mailto:'' r)]
         \<and> (\<not> substr_in ''mailto:'' r \<longrightarrow>
              find_contact_urls lib base content = [spec_mailto_email (''mailto:'' @ r)])"
proof -
  have m: "mailto_email (''mailto:'' @ r) = split_first CHR ''?'' (remove_all ''mailto:'' r)"
    using remove_all_prefix[of "''mailto:''" r] by (simp add: mailto_email_def)
  have s: "substr_in ''mailto:'' (''mailto:'' @ r)"
    by (simp add: substr_in_iff) (metis append_Nil)
  have "find_contact_urls lib base content = [split_first CHR ''?'' (remove_all ''mailto:'' r)]"
    using find_contact_urls_mailto[OF assms(1,2) s] assms(3) m by simp
  moreover have "\<not> substr_in ''mailto:'' r \<Longrightarrow>
      split_first CHR ''?'' (remove_all ''mailto:'' r) = spec_mailto_email (''mailto:'' @ r)"
    by (simp add: remove_all_absent spec_mailto_email_def)
  ultimately show ?thesis by simp
qed

theorem mailto_prefix_first_wins_witness:
  "find_contact_urls example_urllib ''https://x.com''
      (anchor ''/about'' @ anchor ''mailto:info@x.com?subject=hi'' @ anchor ''/contact'')
   = [''info@x.com'']"
proof -
  let ?r = "''info@x.com?subject=hi''"
  have h: "hrefs (anchor ''/about'' @ anchor ''mailto:info@x.com?subject=hi'' @ anchor ''/contact'')
           = [''/about''] @ (''mailto:'' @ ?r) # [''/contact'']"
    by (simp add: example_values)
  have p: "\<forall>v\<in>set [''/about'']. \<not> short_circuits v"
    by (simp add: short_circuits_def)
  have e: "split_first CHR ''?'' (remove_all ''mailto:'' ?r) = ''info@x.com''"
    by (simp add: split_first_def)
  have n: "\<not> substr_in ''mailto:'' ?r" by simp
  show ?thesis
    using mailto_prefix_first_wins[OF h p, of example_urllib "''https://x.com''"] e n
    by (simp add: spec_mailto_email_def split_first_def)
qed

text \<open>
  C6 as stated fails: of \<open>mailto:mailto:info@x.com?subject=hi\<close> the prefix and the query
  stripped leave \<open>mailto:info@x.com\<close>, and \<open>find_contact_urls\<close> returns \<open>info@x.com\<close>.
\<close>

theorem mailto_prefix_only_counterexample:
  "find_contact_urls example_urllib ''https://x.com'' (anchor ''mailto:mailto:info@x.com?subject=hi'')
     = [''info@x.com'']
   \<and> spec_mailto_email ''mailto:mailto:info@x.com?subject=hi'' = ''mailto:info@x.com''"
  by (simp add: example_values spec_mailto_email_def scan_urls_eq short_circuits_def)

lemma find_contact_urls_no_mailto:
  assumes "\<forall>v\<in>set (hrefs content). \<not> short_circuits v"
  shows "find_contact_urls lib base content
         = map (\<lambda>v. if substr_in ''http'' v then v else urljoin lib base v)
             (filter (\<lambda>v. \<not> substr_in ''mailto:'' v \<and>
                        (substr_in ''contact'' v \<or> substr_in ''about'' v \<or> substr_in ''terms'' v))
                (hrefs content))"
  using find_none[OF assms] by (simp add: find_contact_urls_def scan_urls_eq)

lemma hrefs_anchor_contact_us: "hrefs (anchor ''/contact-us'') = [''/contact-us'']"
  by (simp add: example_values)

lemma hrefs_anchor_other_about: "hrefs (anchor ''https://other.com/about'') = [''https://other.com/about'']"
  by (simp add: example_values)

text \<open>
  C7, as amended. When no href value of the document ends the scan, the result is, in
  document order, every href value that contains \<open>contact\<close>, \<open>about\<close> or \<open>terms\<close> and does
  not contain \<open>mailto:\<close>, joined to the base exactly when it does not contain \<open>http\<close>.
  The link \<open>/contact-us\<close> on base \<open>https://x.com\<close> is what \<open>urljoin\<close> makes of the two, and
  \<open>https://other.com/about\<close> is returned as it is.
\<close>

theorem contact_links_collected:
  "((\<forall>v\<in>set (hrefs content). \<not> short_circuits v) \<longrightarrow>
      find_contact_urls lib base content
      = map (\<lambda>v. if substr_in ''http'' v then v else urljoin lib base v)
          (filter (\<lambda>v. \<not> substr_in ''mailto:'' v \<and>
                     (substr_in ''contact'' v \<or> substr_in ''about'' v \<or> substr_in ''terms'' v))
             (hrefs content)))
   \<and> (urljoin lib ''https://x.com'' ''/contact-us'' = ''https://x.com/contact-us'' \<longrightarrow>
        find_contact_urls lib ''https://x.com'' (anchor ''/contact-us'') = [''https://x.com/contact-us''])
   \<and> find_contact_urls lib base (anchor ''https://other.com/about'') = [''https://other.com/about'']"
proof (intro conjI impI)
  assume "\<forall>v\<in>set (hrefs content). \<not> short_circuits v"
  then show "find_contact_urls lib base content
      = map (\<lambda>v. if substr_in ''http'' v then v else urljoin lib base v)
          (filter (\<lambda>v. \<not> substr_in ''mailto:'' v \<and>
                     (substr_in ''contact'' v \<or> substr_in ''about'' v \<or> substr_in ''terms'' v))
             (hrefs content))"
    by (rule find_contact_urls_no_mailto)
next
  assume j: "urljoin lib ''https://x.com'' ''/contact-us'' = ''https://x.com/contact-us''"
  have "\<forall>v\<in>set (hrefs (anchor ''/contact-us'')). \<not> short_circuits v"
    by (simp add: hrefs_anchor_contact_us short_circuits_def)
  from find_contact_urls_no_mailto[OF this, of lib "''https://x.com''"]
  show "find_contact_urls lib ''https://x.com'' (anchor ''/contact-us'') = [''https://x.com/contact-us'']"
    using j by (simp add: hrefs_anchor_contact_us)
next
  have "\<forall>v\<in>set (hrefs (anchor ''https://other.com/about'')). \<not> short_circuits v"
    by (simp add: hrefs_anchor_other_about short_circuits_def)
  from find_contact_urls_no_mailto[OF this, of lib base]
  show "find_contact_urls lib base (anchor ''https://other.com/about'') = [''https://other.com/about'']"
    by (simp add: hrefs_anchor_other_about)
qed

theorem contact_links_collected_witness:
  "find_contact_urls example_urllib ''https://x.com''
     (anchor ''/contact-us'' @ anchor ''/pricing'' @ anchor ''https://other.com/about'')
   = [''https://x.com/contact-us'', ''https://other.com/about'']
   \<and> find_contact_urls example_urllib ''https://x.com'' (anchor ''/contact-us'')
     = [''https://x.com/contact-us'']"
proof -
  let ?doc = "anchor ''/contact-us'' @ anchor ''/pricing'' @ anchor ''https://other.com/about''"
  have h: "hrefs ?doc = [''/contact-us'', ''/pricing'', ''https://other.com/about'']"
    by (simp add: example_values)
  have n: "\<forall>v\<in>set (hrefs ?doc). \<not> short_circuits v"
    by (simp add: h short_circuits_def)
  have j: "urljoin example_urllib ''https://x.com'' ''/contact-us'' = ''https://x.com/contact-us''"
    by (simp add: example_urllib_def)
  note t = contact_links_collected[of ?doc example_urllib "''https://x.com''"]
  have "find_contact_urls example_urllib ''https://x.com'' ?doc
        = map (\<lambda>v. if substr_in ''http'' v then v else urljoin example_urllib ''https://x.com'' v)
          (filter (\<lambda>v. \<not> substr_in ''mailto:'' v \<and>
                     (substr_in ''contact'' v \<or> substr_in ''about'' v \<or> substr_in ''terms'' v))
             (hrefs ?doc))"
    using t n by blast
  moreover have "find_contact_urls example_urllib ''https://x.com'' (anchor ''/contact-us'')
     = [''https://x.com/contact-us'']"
    using t j by blast
  ultimately show ?thesis
    by (simp add: h example_urllib_def)
qed

text \<open>
  C7 as stated fails: a contact link is not in the result when a mailto value ends the
  scan, and a value with \<open>mailto:\<close> and \<open>contact\<close> whose email is empty is not collected.
\<close>

theorem contact_link_dropped_counterexample:
  "find_contact_urls example_urllib ''https://x.com'' (anchor ''/contact'' @ anchor ''mailto:a@b.co'')
     = [''a@b.co'']
   \<and> find_contact_urls example_urllib ''https://x.com'' (anchor ''mailto:?subject=contact'') = []"
  by (simp add: example_values scan_urls_eq short_circuits_def)

subsection \<open>find_email: the image extensions\<close>

text \<open>
  C5. When the first match of the pattern ends with one of the image extensions,
  \<open>find_email\<close> returns \<open>None\<close>; so for the example of the specification. The comparison
  is case-sensitive: \<open>.PNG\<close> is not suppressed.
\<close>

theorem image_suffix_suppressed:
  "(re_search email_pattern content = Some m \<and> (\<exists>ext\<in>set image_extensions. suffix ext m)
      \<longrightarrow> find_email content = None)
   \<and> find_email ''contact us at logo@2x.png for more'' = None
   \<and> find_email ''contact us at logo@2x.PNG for more'' = Some ''logo@2x.PNG''"
proof (intro conjI impI)
  assume "re_search email_pattern content = Some m \<and> (\<exists>ext\<in>set image_extensions. suffix ext m)"
  then show "find_email content = None"
    by (auto simp: find_email_def list_ex_iff)
next
  show "find_email ''contact us at logo@2x.png for more'' = None"
    by (simp add: example_values)
next
  show "find_email ''contact us at logo@2x.PNG for more'' = Some ''logo@2x.PNG''"
    by (simp add: example_values)
qed

theorem image_suffix_suppressed_witness:
  "re_search email_pattern ''see icon@3x.webp'' = Some ''icon@3x.webp''
   \<and> find_email ''see icon@3x.webp'' = None"
proof -
  have r: "re_search email_pattern ''see icon@3x.webp'' = Some ''icon@3x.webp''"
    by (simp add: example_values)
  have s: "\<exists>ext\<in>set image_extensions. suffix ext ''icon@3x.webp''"
    by (simp add: image_extensions_def suffix_to_prefix)
  show ?thesis
    using image_suffix_suppressed[of "''see icon@3x.webp''" "''icon@3x.webp''"] r s by blast
qed

subsection \<open>find_email: the first match\<close>

lemma try_down_Some:
  "try_down lo k cont s = Some m \<Longrightarrow>
   \<exists>j m'. lo \<le> j \<and> j \<le> k \<and> cont (drop j s) = Some m' \<and> m = take j s @ m'"
proof (induction k)
  case 0
  then show ?case by (auto split: if_splits)
next
  case (Suc k)
  show ?case
  proof (cases "cont (drop (Suc k) s)")
    case None
    then have "try_down lo k cont s = Some m"
      using Suc.prems by (auto split: if_splits)
    then obtain j m' where "lo \<le> j" "j \<le> k" "cont (drop j s) = Some m'" "m = take j s @ m'"
      using Suc.IH by blast
    then show ?thesis by (metis le_Suc_eq)
  next
    case (Some m')
    then have "lo \<le> Suc k" "m = take (Suc k) s @ m'"
      using Suc.prems by (auto split: if_splits)
    then show ?thesis using Some by blast
  qed
qed

lemma try_down_None:
  "try_down lo k cont s = None \<Longrightarrow> lo \<le> j \<Longrightarrow> j \<le> k \<Longrightarrow> cont (drop j s) = None"
proof (induction k)
  case 0
  then show ?case by (auto split: if_splits)
next
  case (Suc k)
  show ?case
  proof (cases "j = Suc k")
    case True
    then show ?thesis using Suc.prems by (auto split: if_splits option.splits)
  next
    case False
    then have "j \<le> k" using Suc.prems by simp
    moreover have "try_down lo k cont s = None"
      using Suc.prems by (auto split: if_splits option.splits)
    ultimately show ?thesis using Suc.IH Suc.prems(2) by blast
  qed
qed

lemma take_run:
  "j \<le> length (takeWhile p s) \<Longrightarrow> \<forall>c\<in>set (take j s). p c"
proof (induction s arbitrary: j)
  case Nil
  then show ?case by simp
next
  case (Cons x xs)
  then show ?case
    by (cases j) (auto split: if_splits)
qed

lemma run_le_takeWhile:
  "\<forall>c\<in>set u. p c \<Longrightarrow> length u \<le> length (takeWhile p (u @ v))"
  by (induction u) auto

lemma match_here_sound:
  "match_here pat s = Some m \<Longrightarrow> prefix m s \<and> matches pat m"
proof (induction pat arbitrary: s m)
  case Nil
  then show ?case by simp
next
  case (Cons a r)
  show ?case
  proof (cases a)
    case (One p)
    then show ?thesis
      using Cons.prems Cons.IH by (auto split: list.splits if_splits)
  next
    case (Many n p)
    then have "try_down n (length (takeWhile p s)) (match_here r) s = Some m"
      using Cons.prems by simp
    then obtain j m' where j: "n \<le> j" "j \<le> length (takeWhile p s)"
        "match_here r (drop j s) = Some m'" "m = take j s @ m'"
      using try_down_Some by blast
    have ih: "prefix m' (drop j s)" "matches r m'"
      using Cons.IH[OF j(3)] by auto
    have "j \<le> length s"
      using j(2) length_takeWhile_le[of p s] by simp
    then have len: "length (take j s) = j" by simp
    obtain z where z: "drop j s = m' @ z"
      using ih(1) by (auto simp: prefix_def)
    have "s = take j s @ drop j s" by simp
    then have "s = m @ z" using z j(4) by simp
    then have pm: "prefix m s" by (rule prefixI)
    have "take j s @ m' = take j s @ m' \<and> n \<le> length (take j s)
          \<and> (\<forall>c\<in>set (take j s). p c) \<and> matches r m'"
      using take_run[OF j(2)] j(1) ih(2) len by simp
    then have "matches (Many n p # r) (take j s @ m')"
      unfolding matches.simps by blast
    then show ?thesis using Many j(4) pm by simp
  qed
qed

lemma match_here_complete:
  "matches pat w \<Longrightarrow> match_here pat (w @ rest) \<noteq> None"
proof (induction pat arbitrary: w rest)
  case Nil
  then show ?case by simp
next
  case (Cons a r)
  show ?case
  proof (cases a)
    case (One p)
    then obtain c cs where c: "w = c # cs" "p c" "matches r cs"
      using Cons.prems by auto
    have "match_here r (cs @ rest) \<noteq> None"
      using Cons.IH[OF c(3)] .
    then show ?thesis
      using One c(1,2) by simp
  next
    case (Many n p)
    then obtain u v where uv: "w = u @ v" "n \<le> length u" "\<forall>c\<in>set u. p c" "matches r v"
      using Cons.prems by auto
    have some: "match_here r (drop (length u) (w @ rest)) \<noteq> None"
      using Cons.IH[OF uv(4), of rest] uv(1) by simp
    have le: "length u \<le> length (takeWhile p (w @ rest))"
      using run_le_takeWhile[OF uv(3), of "v @ rest"] uv(1) by simp
    have "try_down n (length (takeWhile p (w @ rest))) (match_here r) (w @ rest) \<noteq> None"
    proof
      assume "try_down n (length (takeWhile p (w @ rest))) (match_here r) (w @ rest) = None"
      from try_down_None[OF this uv(2) le] some show False by simp
    qed
    then show ?thesis using Many by simp
  qed
qed

lemma re_search_Some:
  "re_search pat s = Some m \<Longrightarrow>
   \<exists>pre post. s = pre @ m @ post \<and> matches pat m
     \<and> match_here pat (m @ post) = Some m
     \<and> (\<forall>i<length pre. match_here pat (drop i s) = None)"
proof (induction s)
  case Nil
  then have h: "match_here pat [] = Some m" by simp
  then have "prefix m []" "matches pat m" using match_here_sound[of pat "[]" m] by auto
  then have "[] = [] @ m @ [] \<and> matches pat m \<and> match_here pat (m @ []) = Some m
             \<and> (\<forall>i<length ([]::string). match_here pat (drop i []) = None)"
    using h by simp
  then show ?case by blast
next
  case (Cons c cs)
  show ?case
  proof (cases "match_here pat (c # cs)")
    case (Some m')
    then have "m' = m" using Cons.prems by simp
    then have h: "match_here pat (c # cs) = Some m" using Some by simp
    then have "prefix m (c # cs)" "matches pat m"
      using match_here_sound[OF h] by auto
    then obtain post where "c # cs = [] @ m @ post" by (auto simp: prefix_def)
    then have "c # cs = [] @ m @ post \<and> matches pat m \<and> match_here pat (m @ post) = Some m
             \<and> (\<forall>i<length ([]::string). match_here pat (drop i (c # cs)) = None)"
      using \<open>matches pat m\<close> h by simp
    then show ?thesis by blast
  next
    case None
    then have "re_search pat cs = Some m" using Cons.prems by simp
    then obtain pre post where p: "cs = pre @ m @ post" "matches pat m"
        "match_here pat (m @ post) = Some m"
        "\<forall>i<length pre. match_here pat (drop i cs) = None"
      using Cons.IH by blast
    have "\<forall>i<length (c # pre). match_here pat (drop i (c # cs)) = None"
    proof (intro allI impI)
      fix i assume "i < length (c # pre)"
      then show "match_here pat (drop i (c # cs)) = None"
        using None p(4) by (cases i) auto
    qed
    moreover have "c # cs = (c # pre) @ m @ post" using p(1) by simp
    ultimately show ?thesis using p(2,3) by blast
  qed
qed

lemma re_search_None:
  "re_search pat s = None \<Longrightarrow> i \<le> length s \<Longrightarrow> match_here pat (drop i s) = None"
proof (induction s arbitrary: i)
  case Nil
  then show ?case by simp
next
  case (Cons c cs)
  then show ?case
    by (cases i) (auto split: option.splits)
qed

lemma occurrence_matches_here:
  assumes "s = pre @ m @ post" "matches pat m"
  shows "match_here pat (drop (length pre) s) \<noteq> None"
  using match_here_complete[OF assms(2), of post] assms(1) by simp

lemma matches_email_shape: "matches email_pattern w \<longleftrightarrow> email_shape w"
proof
  assume "matches email_pattern w"
  then obtain l v where 1: "w = l @ v" "1 \<le> length l" "\<forall>c\<in>set l. local_char c"
      "matches [lit CHR ''@'', Many 1 domain_char, lit CHR ''.'', Many 2 alpha] v"
    unfolding email_pattern_def by auto
  from 1(4) obtain v2 where 2: "v = CHR ''@'' # v2"
      "matches [Many 1 domain_char, lit CHR ''.'', Many 2 alpha] v2"
    unfolding lit_def by auto
  from 2(2) obtain d v3 where 3: "v2 = d @ v3" "1 \<le> length d" "\<forall>c\<in>set d. domain_char c"
      "matches [lit CHR ''.'', Many 2 alpha] v3"
    by auto
  from 3(4) obtain t where 4: "v3 = CHR ''.'' # t" "matches [Many 2 alpha] t"
    unfolding lit_def by auto
  from 4(2) have 5: "2 \<le> length t" "\<forall>c\<in>set t. alpha c"
    by auto
  have "w = l @ ''@'' @ d @ ''.'' @ t"
    using 1(1) 2(1) 3(1) 4(1) by simp
  moreover have "l \<noteq> []" "d \<noteq> []" using 1(2) 3(2) by auto
  ultimately show "email_shape w"
    unfolding email_shape_def using 1(3) 3(3) 5 by blast
next
  assume "email_shape w"
  then obtain l d t where s: "w = l @ ''@'' @ d @ ''.'' @ t"
      "l \<noteq> []" "\<forall>c\<in>set l. local_char c" "d \<noteq> []" "\<forall>c\<in>set d. domain_char c"
      "2 \<le> length t" "\<forall>c\<in>set t. alpha c"
    unfolding email_shape_def by blast
  have 5: "matches [Many 2 alpha] t"
    using s(6,7) by simp
  have 4: "matches [lit CHR ''.'', Many 2 alpha] (CHR ''.'' # t)"
    using 5 by (simp add: lit_def)
  have "1 \<le> length d" using s(4) by (cases d) auto
  then have 3: "matches [Many 1 domain_char, lit CHR ''.'', Many 2 alpha] (d @ CHR ''.'' # t)"
    using 4 s(5) unfolding matches.simps(3)[of 1 domain_char] by blast
  have 2: "matches [lit CHR ''@'', Many 1 domain_char, lit CHR ''.'', Many 2 alpha]
             (CHR ''@'' # d @ CHR ''.'' # t)"
    using 3 by (simp add: lit_def)
  have "1 \<le> length l" using s(2) by (cases l) auto
  then have "matches email_pattern (l @ CHR ''@'' # d @ CHR ''.'' # t)"
    using 2 s(3) unfolding email_pattern_def matches.simps(3)[of 1 local_char] by blast
  then show "matches email_pattern w"
    using s(1) by simp
qed

lemma email_shape_nonempty: "email_shape m \<Longrightarrow> m \<noteq> []"
  by (auto simp: email_shape_def)

lemmas class_values = local_char_def domain_char_def alpha_def alnum_def in_range_def

text \<open>
  Among the matches that begin where the match begins, the one the matcher returns is
  the longest: the domain is taken as far as a dot followed by two letters allows, and
  the letters after it are all taken.
\<close>

lemma try_down_Some_max:
  "try_down lo k cont s = Some m \<Longrightarrow>
   \<exists>j m'. lo \<le> j \<and> j \<le> k \<and> cont (drop j s) = Some m' \<and> m = take j s @ m'
          \<and> (\<forall>i. j < i \<and> i \<le> k \<longrightarrow> cont (drop i s) = None)"
proof (induction k)
  case 0
  then show ?case by (auto split: if_splits)
next
  case (Suc k)
  show ?case
  proof (cases "cont (drop (Suc k) s)")
    case None
    then have "try_down lo k cont s = Some m"
      using Suc.prems by (auto split: if_splits)
    then obtain j m' where j: "lo \<le> j" "j \<le> k" "cont (drop j s) = Some m'" "m = take j s @ m'"
        "\<forall>i. j < i \<and> i \<le> k \<longrightarrow> cont (drop i s) = None"
      using Suc.IH by blast
    have "\<forall>i. j < i \<and> i \<le> Suc k \<longrightarrow> cont (drop i s) = None"
    proof (intro allI impI)
      fix i assume "j < i \<and> i \<le> Suc k"
      then show "cont (drop i s) = None"
        using j(5) None by (cases "i = Suc k") auto
    qed
    moreover have "j \<le> Suc k" using j(2) by simp
    ultimately show ?thesis using j(1,3,4) by blast
  next
    case (Some m')
    then have "lo \<le> Suc k" "m = take (Suc k) s @ m'"
      using Suc.prems by (auto split: if_splits)
    moreover have "\<forall>i. Suc k < i \<and> i \<le> Suc k \<longrightarrow> cont (drop i s) = None"
    proof (intro allI impI)
      fix i :: nat assume "Suc k < i \<and> i \<le> Suc k"
      then have False by linarith
      then show "cont (drop i s) = None" ..
    qed
    ultimately show ?thesis using Some by blast
  qed
qed

lemma try_down_end:
  "try_down lo k (\<lambda>s. Some []) s = (if lo \<le> k then Some (take k s) else None)"
  by (cases k) auto

lemma takeWhile_run:
  "\<forall>c\<in>set l. p c \<Longrightarrow> \<not> p x \<Longrightarrow> takeWhile p (l @ x # r) = l"
  by (induction l) auto

lemma not_local_at: "\<not> local_char CHR ''@''"
  by (simp add: class_values)

lemma not_alpha_dot: "\<not> alpha CHR ''.''"
  by (simp add: class_values)

lemma greedy_longest:
  assumes m: "match_here email_pattern s = Some m" and w: "email_shape w" and pw: "prefix w s"
  shows "length w \<le> length m"
proof -
  obtain l d t where sh: "w = l @ ''@'' @ d @ ''.'' @ t"
      "l \<noteq> []" "\<forall>c\<in>set l. local_char c" "d \<noteq> []" "\<forall>c\<in>set d. domain_char c"
      "2 \<le> length t" "\<forall>c\<in>set t. alpha c"
    using w unfolding email_shape_def by blast
  obtain rest where s: "s = w @ rest" using pw by (auto simp: prefix_def)
  define s2 where "s2 = d @ CHR ''.'' # t @ rest"
  have s_eq: "s = l @ CHR ''@'' # s2"
    using s sh(1) by (simp add: s2_def)
  have L: "takeWhile local_char s = l"
    unfolding s_eq using sh(3) not_local_at by (rule takeWhile_run)
  have "try_down 1 (length l) (match_here [lit CHR ''@'', Many 1 domain_char, lit CHR ''.'', Many 2 alpha]) s
        = Some m"
    using m L by (simp add: email_pattern_def)
  then obtain j1 m1 where j1: "j1 \<le> length l"
      "match_here [lit CHR ''@'', Many 1 domain_char, lit CHR ''.'', Many 2 alpha] (drop j1 s) = Some m1"
      "m = take j1 s @ m1"
    using try_down_Some by blast
  have j1_eq: "j1 = length l"
  proof (rule ccontr)
    assume "j1 \<noteq> length l"
    then have lt: "j1 < length l" using j1(1) by simp
    then have "drop j1 s = l ! j1 # drop (Suc j1) l @ CHR ''@'' # s2"
      unfolding s_eq by (simp add: Cons_nth_drop_Suc)
    then have "l ! j1 = CHR ''@''"
      using j1(2) by (auto simp: lit_def split: if_splits)
    moreover have "local_char (l ! j1)" using sh(3) lt by simp
    ultimately show False using not_local_at by simp
  qed
  have d1: "drop j1 s = CHR ''@'' # s2" "take j1 s = l"
    unfolding s_eq j1_eq by simp_all
  then obtain m2 where m2: "m1 = CHR ''@'' # m2"
      "match_here [Many 1 domain_char, lit CHR ''.'', Many 2 alpha] s2 = Some m2"
    using j1(2) by (auto simp: lit_def)
  define K where "K = length (takeWhile domain_char s2)"
  have "try_down 1 K (match_here [lit CHR ''.'', Many 2 alpha]) s2 = Some m2"
    using m2(2) by (simp add: K_def)
  then obtain j2 m3 where j2: "j2 \<le> K"
      "match_here [lit CHR ''.'', Many 2 alpha] (drop j2 s2) = Some m3"
      "m2 = take j2 s2 @ m3"
      "\<forall>i. j2 < i \<and> i \<le> K \<longrightarrow> match_here [lit CHR ''.'', Many 2 alpha] (drop i s2) = None"
    using try_down_Some_max by blast
  have K_le: "K \<le> length s2"
    unfolding K_def by (rule length_takeWhile_le)
  have len_take: "length (take j2 s2) = j2"
    using j2(1) K_le by simp
  obtain s4 where s4: "drop j2 s2 = CHR ''.'' # s4"
    using j2(2) by (cases "drop j2 s2") (auto simp: lit_def split: if_splits)
  then obtain m4 where m4: "m3 = CHR ''.'' # m4" "match_here [Many 2 alpha] s4 = Some m4"
    using j2(2) by (auto simp: lit_def)
  define A where "A = length (takeWhile alpha s4)"
  have "try_down 2 A (\<lambda>s. Some []) s4 = Some m4"
    using m4(2) by (simp add: A_def)
  then have m4_eq: "m4 = take A s4" "2 \<le> A"
    by (auto simp: try_down_end split: if_splits)
  have "A \<le> length s4" unfolding A_def by (rule length_takeWhile_le)
  then have len_m4: "length m4 = A" using m4_eq(1) by simp
  have len_m: "length m = length l + 1 + j2 + 1 + A"
    using j1(3) d1(2) m2(1) j2(3) m4(1) len_take len_m4 by simp
  have len_w: "length w = length l + 1 + length d + 1 + length t"
    using sh(1) by simp
  have dK: "length d \<le> K"
    unfolding K_def s2_def using run_le_takeWhile[OF sh(5)] by simp
  have "matches [lit CHR ''.'', Many 2 alpha] (CHR ''.'' # t)"
    using sh(6,7) by (simp add: lit_def)
  then have "match_here [lit CHR ''.'', Many 2 alpha] ((CHR ''.'' # t) @ rest) \<noteq> None"
    by (rule match_here_complete)
  moreover have "drop (length d) s2 = (CHR ''.'' # t) @ rest"
    by (simp add: s2_def)
  ultimately have "match_here [lit CHR ''.'', Many 2 alpha] (drop (length d) s2) \<noteq> None"
    by simp
  then have d_le: "length d \<le> j2"
    using j2(4) dK by (meson not_le_imp_less)
  show ?thesis
  proof (cases "length d = j2")
    case True
    then have "s4 = t @ rest"
      using s4 by (simp add: s2_def)
    then have "length t \<le> A"
      unfolding A_def using run_le_takeWhile[OF sh(7)] by simp
    then show ?thesis using len_m len_w True by simp
  next
    case False
    then have lt: "length d < j2" using d_le by simp
    have "length d + 1 + length t \<le> j2"
    proof (rule ccontr)
      assume "\<not> length d + 1 + length t \<le> j2"
      then have in_t: "j2 - length d - 1 < length t" using lt by simp
      have "j2 < length s2" using s4 by (metis drop_eq_Nil list.distinct(1) not_le_imp_less)
      then have "s2 ! j2 = CHR ''.''"
        using s4 by (metis Cons_nth_drop_Suc list.inject)
      moreover have "s2 ! j2 = t ! (j2 - length d - 1)"
        using lt in_t by (simp add: s2_def nth_append nth_Cons')
      moreover have "alpha (t ! (j2 - length d - 1))"
        using sh(7) in_t by simp
      ultimately show False using not_alpha_dot by simp
    qed
    then show ?thesis using len_m len_w by simp
  qed
qed

text \<open>
  C4, as amended. When no substring of the text has the shape of an email, \<open>find_email\<close>
  returns \<open>None\<close>. Otherwise there is a substring \<open>m\<close> of that shape that begins no later
  than any other (the first match in document order) and is the longest of those that
  begin there, and \<open>find_email\<close> returns \<open>m\<close>, unless \<open>m\<close> ends with an image extension:
  then it returns \<open>None\<close>, whatever follows.
\<close>

theorem find_email_first_match:
  "((\<nexists>pre m post. content = pre @ m @ post \<and> email_shape m) \<longrightarrow> find_email content = None)
   \<and> ((\<exists>pre m post. content = pre @ m @ post \<and> email_shape m) \<longrightarrow>
        (\<exists>pre m post. content = pre @ m @ post \<and> email_shape m
           \<and> (\<forall>pre' m' post'. content = pre' @ m' @ post' \<and> email_shape m'
                  \<longrightarrow> length pre \<le> length pre'
                      \<and> (length pre' = length pre \<longrightarrow> length m' \<le> length m))
           \<and> find_email content
             = (if \<exists>ext\<in>set image_extensions. suffix ext m then None else Some m)))"
proof (intro conjI impI)
  assume none: "\<nexists>pre m post. content = pre @ m @ post \<and> email_shape m"
  have "re_search email_pattern content = None"
  proof (rule ccontr)
    assume "re_search email_pattern content \<noteq> None"
    then obtain m where "re_search email_pattern content = Some m" by auto
    then obtain pre post where "content = pre @ m @ post" "matches email_pattern m"
      using re_search_Some by blast
    then show False using none matches_email_shape by blast
  qed
  then show "find_email content = None"
    by (simp add: find_email_def)
next
  assume "\<exists>pre m post. content = pre @ m @ post \<and> email_shape m"
  then obtain pre0 m0 post0 where occ: "content = pre0 @ m0 @ post0" "email_shape m0"
    by blast
  have ne: "content \<noteq> []"
    using occ email_shape_nonempty by auto
  have "re_search email_pattern content \<noteq> None"
  proof
    assume n: "re_search email_pattern content = None"
    have "length pre0 \<le> length content" using occ(1) by simp
    from re_search_None[OF n this]
    show False
      using occurrence_matches_here[OF occ(1)] occ(2) matches_email_shape by blast
  qed
  then obtain m where m: "re_search email_pattern content = Some m" by auto
  then obtain pre post where p: "content = pre @ m @ post" "matches email_pattern m"
      "\<forall>i<length pre. match_here email_pattern (drop i content) = None"
      and here: "match_here email_pattern (m @ post) = Some m"
    using re_search_Some by blast
  have shape: "email_shape m" using p(2) matches_email_shape by blast
  have left: "\<forall>pre' m' post'. content = pre' @ m' @ post' \<and> email_shape m'
                  \<longrightarrow> length pre \<le> length pre'
                      \<and> (length pre' = length pre \<longrightarrow> length m' \<le> length m)"
  proof (intro allI impI conjI)
    fix pre' m' post'
    assume o: "content = pre' @ m' @ post' \<and> email_shape m'"
    show "length pre \<le> length pre'"
    proof (rule ccontr)
      assume "\<not> length pre \<le> length pre'"
      then have "match_here email_pattern (drop (length pre') content) = None"
        using p(3) by simp
      moreover have "match_here email_pattern (drop (length pre') content) \<noteq> None"
        using o occurrence_matches_here matches_email_shape by blast
      ultimately show False by simp
    qed
  next
    fix pre' m' post'
    assume o: "content = pre' @ m' @ post' \<and> email_shape m'"
      and same: "length pre' = length pre"
    have "pre' @ m' @ post' = pre @ m @ post" using o p(1) by simp
    then have "m' @ post' = m @ post" using same by simp
    then have "prefix m' (m @ post)" by (metis prefixI)
    then show "length m' \<le> length m"
      using greedy_longest[OF here] o by blast
  qed
  have "find_email content
        = (if \<exists>ext\<in>set image_extensions. suffix ext m then None else Some m)"
    using m ne email_shape_nonempty[OF shape] by (simp add: find_email_def list_ex_iff)
  then show "\<exists>pre m post. content = pre @ m @ post \<and> email_shape m
           \<and> (\<forall>pre' m' post'. content = pre' @ m' @ post' \<and> email_shape m'
                  \<longrightarrow> length pre \<le> length pre'
                      \<and> (length pre' = length pre \<longrightarrow> length m' \<le> length m))
           \<and> find_email content
             = (if \<exists>ext\<in>set image_extensions. suffix ext m then None else Some m)"
    using p(1) shape left by blast
qed

lemma shape_logo: "email_shape ''logo@2x.png''"
proof -
  have "''logo@2x.png'' = ''logo'' @ ''@'' @ ''2x'' @ ''.'' @ ''png''" by simp
  moreover have "\<forall>c\<in>set ''logo''. local_char c" by (simp add: class_values)
  moreover have "\<forall>c\<in>set ''2x''. domain_char c" by (simp add: class_values)
  moreover have "\<forall>c\<in>set ''png''. alpha c" by (simp add: class_values)
  moreover have "''logo'' \<noteq> []" "''2x'' \<noteq> []" "2 \<le> length ''png''" by simp_all
  ultimately show ?thesis unfolding email_shape_def by blast
qed

lemmas email_values = find_email_def email_pattern_def lit_def class_values image_extensions_def
  suffix_to_prefix

text \<open>
  C4 as stated fails: this text contains substrings of the shape of an email, the first
  of them \<open>logo@2x.png\<close>, and \<open>find_email\<close> returns \<open>None\<close>.
\<close>

theorem first_match_not_returned_counterexample:
  "email_shape ''logo@2x.png''
   \<and> find_email ''see logo@2x.png or write to info@x.com'' = None"
proof
  show "email_shape ''logo@2x.png''" by (rule shape_logo)
next
  show "find_email ''see logo@2x.png or write to info@x.com'' = None"
    by (simp add: email_values)
qed

theorem find_email_first_match_witness:
  "(\<exists>pre m post. ''mail a.b@c-d.example.org or x@y.zz'' = pre @ m @ post \<and> email_shape m)
   \<and> (\<exists>pre m post. ''mail a.b@c-d.example.org or x@y.zz'' = pre @ m @ post \<and> email_shape m
           \<and> (\<forall>pre' m' post'. ''mail a.b@c-d.example.org or x@y.zz'' = pre' @ m' @ post'
                  \<and> email_shape m' \<longrightarrow> length pre \<le> length pre'
                      \<and> (length pre' = length pre \<longrightarrow> length m' \<le> length m))
           \<and> find_email ''mail a.b@c-d.example.org or x@y.zz''
             = (if \<exists>ext\<in>set image_extensions. suffix ext m then None else Some m))
   \<and> find_email ''mail a.b@c-d.example.org or x@y.zz'' = Some ''a.b@c-d.example.org''"
proof -
  let ?c = "''mail a.b@c-d.example.org or x@y.zz''"
  have s: "email_shape ''x@y.zz''"
  proof -
    have "''x@y.zz'' = ''x'' @ ''@'' @ ''y'' @ ''.'' @ ''zz''" by simp
    moreover have "\<forall>c\<in>set ''x''. local_char c" by (simp add: class_values)
    moreover have "\<forall>c\<in>set ''y''. domain_char c" by (simp add: class_values)
    moreover have "\<forall>c\<in>set ''zz''. alpha c" by (simp add: class_values)
    moreover have "''x'' \<noteq> []" "''y'' \<noteq> []" "2 \<le> length ''zz''" by simp_all
    ultimately show ?thesis unfolding email_shape_def by blast
  qed
  have "?c = ''mail a.b@c-d.example.org or '' @ ''x@y.zz'' @ []" by simp
  then have occ: "\<exists>pre m post. ?c = pre @ m @ post \<and> email_shape m"
    using s by blast
  have v: "find_email ?c = Some ''a.b@c-d.example.org''"
    by (simp add: email_values)
  show ?thesis
    using find_email_first_match[of ?c] occ v by blast
qed

subsection \<open>Invariants of the event loop\<close>

lemma contact_loop_at_home: "at_home hp (fst (contact_loop net hp cs))"
  by (induction cs) (auto simp: Let_def split: prod.splits)


lemma after_home_at_home: "at_home hp (fst (after_home lib net ap hp))"
  using contact_loop_at_home[of hp net "find_contact_urls lib hp (the (fetch net hp))"]
  by (auto simp: after_home_def Let_def split: prod.splits)

lemma after_home_processed: "fst (snd (after_home lib net ap hp)) = insert hp ap"
  by (auto simp: after_home_def Let_def split: prod.splits)


lemma advance_at_home:
  "at_home hp t \<Longrightarrow> at_home hp (fst (advance lib net ap t))"
proof (cases t)
  case (AwaitHome h)
  assume "at_home hp t"
  then show ?thesis
    using AwaitHome after_home_at_home[of hp lib net ap] by simp
next
  case (AwaitContact h c cs)
  assume "at_home hp t"
  then show ?thesis
    using AwaitContact contact_loop_at_home[of hp net cs]
    by (auto simp: Let_def split: prod.splits)
qed auto

lemma advance_processed_mono: "ap \<subseteq> fst (snd (advance lib net ap t))"
proof (cases t)
  case (Start u)
  then show ?thesis
    using after_home_processed[of lib net ap "extract_homepage lib u"]
    by (auto simp: Let_def split: prod.splits)
next
  case (AwaitHome h)
  then show ?thesis
    using after_home_processed[of lib net ap h] by auto
next
  case (AwaitContact h c cs)
  then show ?thesis by (auto simp: Let_def split: prod.splits)
next
  case (Done r)
  then show ?thesis by simp
qed



lemma advance_Done: "advance lib net ap (Done r) = (Done r, ap, [])"
  by simp

lemma resume_length [simp]: "length (tasks (resume lib net i w)) = length (tasks w)"
  by (auto simp: resume_def split: prod.splits)

lemma resume_other:
  "j \<noteq> i \<Longrightarrow> tasks (resume lib net i w) ! j = tasks w ! j"
  by (auto simp: resume_def split: prod.splits)

lemma resume_self:
  "i < length (tasks w) \<Longrightarrow>
   tasks (resume lib net i w) ! i = fst (advance lib net (processed w) (tasks w ! i))"
  by (auto simp: resume_def split: prod.splits)

lemma resume_processed:
  "processed (resume lib net i w) =
     (if i < length (tasks w) then fst (snd (advance lib net (processed w) (tasks w ! i)))
      else processed w)"
  by (auto simp: resume_def split: prod.splits)

lemma resume_fetched:
  "fetched (resume lib net i w) =
     (if i < length (tasks w)
      then fetched w @ snd (snd (advance lib net (processed w) (tasks w ! i)))
      else fetched w)"
  by (auto simp: resume_def split: prod.splits)

lemma resume_done_task:
  fixes w :: world
  assumes "i < length (tasks w) \<longrightarrow> is_done (tasks w ! i)"
  shows "resume lib net i w = w"
proof (cases "i < length (tasks w)")
  case True
  then obtain r where d: "tasks w ! i = Done r"
    using assms by (cases "tasks w ! i") auto
  have "(tasks w)[i := tasks w ! i] = tasks w"
    by (rule list_update_id)
  then have "(tasks w)[i := Done r] = tasks w"
    using d by simp
  then show ?thesis
    using True d by (cases w) (simp add: resume_def)
next
  case False
  then show ?thesis by (simp add: resume_def)
qed

lemma run_schedule_keeps:
  "keeps P lib net \<Longrightarrow> P w \<Longrightarrow> P (run_schedule lib net sched w)"
  unfolding run_schedule_def
  by (induction sched arbitrary: w) (auto simp: keeps_def)

lemma drive_keeps:
  "keeps P lib net \<Longrightarrow> P w \<Longrightarrow> P (drive lib net w)"
proof (induction lib net w rule: drive.induct)
  case (1 lib net w)
  show ?case
  proof (cases "pending (tasks w)")
    case None
    then show ?thesis using 1 by (simp add: drive_finished)
  next
    case (Some i)
    have "P (resume lib net i w)" using 1(2,3) by (simp add: keeps_def)
    then show ?thesis using 1 Some by (simp add: drive_resume)
  qed
qed

lemma gather_keeps:
  "keeps P lib net \<Longrightarrow> P w \<Longrightarrow> P (gather lib net sched w)"
  by (simp add: gather_def start_all_def run_schedule_keeps drive_keeps)

lemma drive_all_done: "pending (tasks (drive lib net w)) = None"
proof (induction lib net w rule: drive.induct)
  case (1 lib net w)
  show ?case
  proof (cases "pending (tasks w)")
    case None
    then show ?thesis by (simp add: drive_finished)
  next
    case (Some i)
    then show ?thesis using 1 by (simp add: drive_resume)
  qed
qed

subsection \<open>A duplicate homepage and the rows of the report\<close>

lemma write_rows_None: "None \<in> set rs \<Longrightarrow> write_rows rs rows = Inl TypeError"
proof (induction rs arbitrary: rows)
  case Nil
  then show ?case by simp
next
  case (Cons r rs)
  show ?case
  proof (cases r)
    case None
    then show ?thesis by simp
  next
    case (Some p)
    then have "None \<in> set rs" using Cons.prems by auto
    then show ?thesis using Some Cons.IH by (cases p) simp
  qed
qed

lemma all_done_iff: "pending ts = None \<longleftrightarrow> (\<forall>t\<in>set ts. is_done t)"
  by (rule pending_None_iff)

lemma gather_from_start:
  "keeps P lib net \<Longrightarrow> P (start_all lib net w) \<Longrightarrow> P (gather lib net sched w)"
  by (simp add: gather_def run_schedule_keeps drive_keeps)

lemma gather_all_done: "\<forall>t\<in>set (tasks (gather lib net sched w)). is_done t"
  using drive_all_done[of lib net] by (simp add: gather_def pending_None_iff)

lemma keeps_duplicate:
  assumes "extract_homepage lib u \<in> ap"
  shows "keeps (\<lambda>w. i < length (tasks w) \<and> ap \<subseteq> processed w
                  \<and> (tasks w ! i = Start u \<or> tasks w ! i = Done None)) lib net"
  unfolding keeps_def
proof (intro allI impI)
  fix w :: world and j
  assume a: "i < length (tasks w) \<and> ap \<subseteq> processed w
             \<and> (tasks w ! i = Start u \<or> tasks w ! i = Done None)"
  have in_set: "extract_homepage lib u \<in> processed w"
    using a assms by auto
  have mono: "ap \<subseteq> processed (resume lib net j w)"
    using a advance_processed_mono[of "processed w" lib net "tasks w ! j"]
    by (auto simp: resume_processed)
  have "tasks (resume lib net j w) ! i = Start u \<or> tasks (resume lib net j w) ! i = Done None"
  proof (cases "j = i")
    case True
    have "fst (advance lib net (processed w) (tasks w ! i)) = Done None"
      using a in_set by (auto simp: Let_def)
    then show ?thesis using True a by (simp add: resume_self)
  next
    case False
    then show ?thesis using a by (simp add: resume_other)
  qed
  then show "i < length (tasks (resume lib net j w)) \<and> ap \<subseteq> processed (resume lib net j w)
        \<and> (tasks (resume lib net j w) ! i = Start u \<or> tasks (resume lib net j w) ! i = Done None)"
    using a mono by simp
qed

text \<open>
  C2. The code does not do what the claim says: when \<open>ALREADY_PROCESSED\<close> holds the
  homepage of one of the URLs, the task of that URL returns \<open>None\<close>, \<open>gather\<close> hands the
  \<open>None\<close> on in the list of results, and the loop that writes the rows raises
  \<open>TypeError\<close> on it, whatever the network and the order of the tasks.
\<close>

theorem duplicate_raises_type_error:
  assumes "u \<in> set urls" "extract_homepage lib u \<in> ap"
  shows "csv (scrape_emails lib net sched ap urls) = Inl TypeError"
proof -
  obtain i where i: "i < length urls" "urls ! i = u"
    using assms(1) by (auto simp: in_set_conv_nth)
  let ?w = "gather lib net sched (new_run ap urls)"
  have "i < length (tasks (new_run ap urls)) \<and> ap \<subseteq> processed (new_run ap urls)
        \<and> (tasks (new_run ap urls) ! i = Start u \<or> tasks (new_run ap urls) ! i = Done None)"
    using i by (simp add: new_run_def)
  then have inv: "i < length (tasks ?w) \<and> ap \<subseteq> processed ?w
        \<and> (tasks ?w ! i = Start u \<or> tasks ?w ! i = Done None)"
    by (rule gather_keeps[OF keeps_duplicate[OF assms(2)]])
  have "is_done (tasks ?w ! i)"
    using gather_all_done[of lib net sched "new_run ap urls"] inv by simp
  then have "tasks ?w ! i = Done None"
    using inv by auto
  then have "i < length (map returned (tasks ?w))" "map returned (tasks ?w) ! i = None"
    using inv by simp_all
  then have "None \<in> set (map returned (tasks ?w))"
    by (metis nth_mem)
  then show ?thesis
    by (simp add: scrape_emails_def Let_def write_csv_def write_rows_None)
qed

theorem duplicate_raises_type_error_witness:
  "csv (scrape_emails example_urllib example_network [] {''https://a.com''}
          [''https://b.org/'', ''https://a.com/x'']) = Inl TypeError"
proof -
  have a: "''https://a.com/x'' \<in> set [''https://b.org/'', ''https://a.com/x'']" by simp
  have b: "extract_homepage example_urllib ''https://a.com/x'' \<in> {''https://a.com''}"
    by (simp add: extract_homepage_def example_urllib_def)
  show ?thesis
    using duplicate_raises_type_error[OF a b] .
qed

subsection \<open>Two URLs with one homepage\<close>

lemma keeps_two_at_home:
  "keeps (\<lambda>w. length (tasks w) = 2 \<and> at_home hp (tasks w ! 0) \<and> at_home hp (tasks w ! 1)
              \<and> prefix [hp, hp] (fetched w)) lib net"
  unfolding keeps_def
proof (intro allI impI)
  fix w :: world and j
  assume a: "length (tasks w) = 2 \<and> at_home hp (tasks w ! 0) \<and> at_home hp (tasks w ! 1)
              \<and> prefix [hp, hp] (fetched w)"
  have h: "\<And>k. k < 2 \<Longrightarrow> at_home hp (tasks (resume lib net j w) ! k)"
  proof -
    fix k :: nat assume k: "k < 2"
    then have ak: "at_home hp (tasks w ! k)"
      using a by (cases k) (auto simp: less_Suc_eq)
    show "at_home hp (tasks (resume lib net j w) ! k)"
    proof (cases "j = k")
      case True
      then show ?thesis using a k ak by (simp add: resume_self advance_at_home)
    next
      case False
      then show ?thesis using ak by (simp add: resume_other)
    qed
  qed
  have "prefix (fetched w) (fetched (resume lib net j w))"
    by (simp add: resume_fetched)
  then have "prefix [hp, hp] (fetched (resume lib net j w))"
    using a prefix_order.trans by blast
  then show "length (tasks (resume lib net j w)) = 2
        \<and> at_home hp (tasks (resume lib net j w) ! 0)
        \<and> at_home hp (tasks (resume lib net j w) ! 1)
        \<and> prefix [hp, hp] (fetched (resume lib net j w))"
    using a h[of 0] h[of 1] by simp
qed

lemma done_at_home: "is_done t \<Longrightarrow> at_home hp t \<Longrightarrow> \<exists>e. returned t = Some (hp, e)"
  by (cases t) auto

text \<open>
  C1. The code does not do what the claim says: the homepage is added to
  \<open>ALREADY_PROCESSED\<close> after its fetch has returned, and \<open>gather\<close> starts the next task
  while a task waits for the network. Two URLs with the same homepage, not yet in the
  set, whose request reaches the network (it suspends), both request it, and both tasks
  return a result for it, whatever the network answers and the order in which the tasks
  are resumed.
\<close>

theorem same_homepage_fetched_twice:
  assumes "extract_homepage lib u1 = hp" "extract_homepage lib u2 = hp" "hp \<notin> ap"
    and "suspends net hp"
  shows "\<exists>e1 e2 more.
           results (scrape_emails lib net sched ap [u1, u2]) = [Some (hp, e1), Some (hp, e2)]
           \<and> requests (scrape_emails lib net sched ap [u1, u2]) = hp # hp # more"
proof -
  let ?w = "gather lib net sched (new_run ap [u1, u2])"
  have s: "start_all lib net (new_run ap [u1, u2])
           = \<lparr>processed = ap, tasks = [AwaitHome hp, AwaitHome hp], fetched = [hp, hp]\<rparr>"
    using assms
    by (simp add: start_all_def run_schedule_def new_run_def resume_def Let_def)
  have inv: "length (tasks ?w) = 2 \<and> at_home hp (tasks ?w ! 0) \<and> at_home hp (tasks ?w ! 1)
             \<and> prefix [hp, hp] (fetched ?w)"
    by (rule gather_from_start[OF keeps_two_at_home]) (simp add: s)
  obtain t0 t1 where ts: "tasks ?w = [t0, t1]"
    using inv by (cases "tasks ?w"; cases "tl (tasks ?w)") auto
  have "is_done t0" "is_done t1"
    using gather_all_done[of lib net sched "new_run ap [u1, u2]"] ts by auto
  moreover have "at_home hp t0" "at_home hp t1"
    using inv ts by auto
  ultimately obtain e1 e2 where e: "returned t0 = Some (hp, e1)" "returned t1 = Some (hp, e2)"
    using done_at_home by blast
  obtain more where "fetched ?w = hp # hp # more"
    using inv by (auto simp: prefix_def)
  then show ?thesis
    using ts e by (simp add: scrape_emails_def Let_def)
qed

theorem same_homepage_fetched_twice_witness:
  "extract_homepage example_urllib ''https://a.com/x'' = ''https://a.com''
   \<and> extract_homepage example_urllib ''https://a.com/y'' = ''https://a.com''
   \<and> suspends (\<lambda>u. Failed) ''https://a.com''
   \<and> (\<exists>e1 e2 more.
         results (scrape_emails example_urllib (\<lambda>u. Failed) [] {} [''https://a.com/x'', ''https://a.com/y''])
           = [Some (''https://a.com'', e1), Some (''https://a.com'', e2)]
         \<and> requests (scrape_emails example_urllib (\<lambda>u. Failed) [] {} [''https://a.com/x'', ''https://a.com/y''])
           = ''https://a.com'' # ''https://a.com'' # more)"
proof -
  have a: "extract_homepage example_urllib ''https://a.com/x'' = ''https://a.com''"
    by (simp add: extract_homepage_def example_urllib_def)
  have b: "extract_homepage example_urllib ''https://a.com/y'' = ''https://a.com''"
    by (simp add: extract_homepage_def example_urllib_def)
  have c: "''https://a.com'' \<notin> ({} :: string set)" by simp
  have d: "suspends (\<lambda>u. Failed) ''https://a.com''" by (simp add: suspends_def)
  show ?thesis
    using same_homepage_fetched_twice[OF a b c d, of "[]"] a b d by blast
qed

text \<open>
  Where no request reaches the network the set does its work within a run: the first
  task adds the homepage before the second starts, and the second returns \<open>None\<close>.
\<close>

lemma rejected_homepage_fetched_once:
  "scrape_emails example_urllib (\<lambda>u. Rejected) [] {} [''ftp://a.com/x'', ''ftp://a.com/y'']
   = \<lparr>results = [Some (''ftp://a.com'', None), None], processed_after = {''ftp://a.com''},
      requests = [''ftp://a.com''], csv = Inl TypeError\<rparr>"
  by code_simp

subsection \<open>The set from one run to the next\<close>










end
